theory Spec2Isabelle
  imports Main "HOL-Library.Word"
begin

section \<open>The data model behind \<open>django_etesync/serializers.py\<close>\<close>

text \<open>
  The serializers work on Django model rows. A table is the list of its rows in insertion
  order (the order of the automatic primary key), a foreign key is the primary key of the
  row it points to, and a nullable column is an \<open>option\<close>. Binary fields are byte strings.
  A chunk's file is kept with the chunk row: the serializers reach a file only through
  the row that names it. The model classes themselves (\<open>models.py\<close>) are not among the
  source files: the columns are those the serializers read and write, and those of the
  spec's data model.
\<close>

type_synonym pk = nat
type_synonym bytes = "8 word list"
type_synonym user = string

datatype error =
    ValidationError string
  | DoesNotExist
  | MultipleObjectsReturned
  | IntegrityError
  | AttributeError
  | BinasciiError
  | ValueError
  | IndexError

datatype AccessLevels = ADMIN | READ_WRITE | READ_ONLY

record Collection =
  coll_id :: pk
  coll_uid :: string
  coll_version :: nat
  coll_owner :: user

record CollectionItem =
  item_id :: pk
  item_uid :: "string option"
  item_version :: nat
  item_encryptionKey :: "bytes option"
  item_collection :: pk

record CollectionItemChunk =
  chunk_id :: pk
  chunk_uid :: string
  chunk_item :: pk
  chunk_chunkFile :: bytes

record CollectionItemRevision =
  rev_id :: pk
  rev_stoken :: pk
  rev_uid :: string
  rev_item :: pk
  rev_meta :: bytes
  rev_current :: "bool option"
  rev_deleted :: bool

record RevisionChunkRelation =
  rel_id :: pk
  rel_chunk :: pk
  rel_revision :: pk

record CollectionMember =
  member_id :: pk
  member_stoken :: pk
  member_collection :: pk
  member_user :: user
  member_accessLevel :: AccessLevels
  member_encryptionKey :: bytes

record CollectionInvitation =
  inv_id :: pk
  inv_uid :: string
  inv_version :: nat
  inv_fromMember :: pk
  inv_collection :: pk
  inv_user :: user
  inv_signedEncryptionKey :: bytes
  inv_accessLevel :: AccessLevels

record database =
  stokens :: "pk list"
  collections :: "Collection list"
  items :: "CollectionItem list"
  chunks :: "CollectionItemChunk list"
  revisions :: "CollectionItemRevision list"
  relations :: "RevisionChunkRelation list"
  members :: "CollectionMember list"
  invitations :: "CollectionInvitation list"
  last_invitation_id :: pk

definition empty_db :: database where
  "empty_db = \<lparr>stokens = [], collections = [], items = [], chunks = [], revisions = [],
     relations = [], members = [], invitations = [], last_invitation_id = 0\<rparr>"

subsection \<open>The object manager\<close>

text \<open>
  A new row gets a primary key above every key of its table. Invitation rows are deleted
  when they are accepted, and a key is not given twice: the database keeps the last key
  the invitation table issued, and a new invitation's key is above it too.
\<close>

definition new_pk :: "pk list \<Rightarrow> pk" where
  "new_pk ids = Suc (fold max ids 0)"

text \<open>\<open>objects.get(...)\<close>: the one matching row, or an exception.\<close>

definition objects_get :: "('a \<Rightarrow> bool) \<Rightarrow> 'a list \<Rightarrow> error + 'a" where
  "objects_get P rows =
     (case filter P rows of
        [] \<Rightarrow> Inl DoesNotExist
      | [x] \<Rightarrow> Inr x
      | _ \<Rightarrow> Inl MultipleObjectsReturned)"

text \<open>\<open>queryset.first()\<close>: the first matching row, or \<open>None\<close>.\<close>

definition objects_first :: "('a \<Rightarrow> bool) \<Rightarrow> 'a list \<Rightarrow> 'a option" where
  "objects_first P rows = (case filter P rows of [] \<Rightarrow> None | x # _ \<Rightarrow> Some x)"

text \<open>
  \<open>with transaction.atomic()\<close>: the body either commits its state or, when it raises,
  leaves the database as it was.
\<close>

definition atomic :: "(database \<Rightarrow> error + 'a \<times> database) \<Rightarrow> database \<Rightarrow> (error + 'a) \<times> database" where
  "atomic body s = (case body s of Inl e \<Rightarrow> (Inl e, s) | Inr (v, s') \<Rightarrow> (Inr v, s'))"

text \<open>
  Modelled from the spec: the \<open>Stoken\<close> model (\<open>models.Stoken\<close>) is not among the source
  files. The spec's allocator returns a token strictly greater than every token allocated
  before; here a token is the automatic key of its row in the stoken table.
\<close>

definition Stoken_create :: "database \<Rightarrow> pk \<times> database" where
  "Stoken_create s = (let t = new_pk (stokens s) in (t, s\<lparr>stokens := stokens s @ [t]\<rparr>))"

text \<open>
  Modelled from the spec: the \<open>CollectionItemRevision\<close> model is not among the source
  files. A new revision is current unless told otherwise (spec 4.3, step 3), and the
  unique constraint on \<open>(item, current)\<close> that the comment in
  \<open>CollectionItemSerializer.create\<close> relies on refuses a second current revision of an
  item; a demoted revision has \<open>current = None\<close>, which the constraint ignores.
\<close>

definition CollectionItemRevision_create ::
  "string \<Rightarrow> bytes \<Rightarrow> bool \<Rightarrow> pk \<Rightarrow> pk \<Rightarrow> database \<Rightarrow> error + CollectionItemRevision \<times> database" where
  "CollectionItemRevision_create uid meta deleted item stoken s =
     (let revision = \<lparr>rev_id = new_pk (map rev_id (revisions s)), rev_stoken = stoken,
            rev_uid = uid, rev_item = item, rev_meta = meta, rev_current = Some True,
            rev_deleted = deleted\<rparr>
      in if \<exists>r \<in> set (revisions s). rev_item r = item \<and> rev_current r = Some True
         then Inl IntegrityError
         else Inr (revision, s\<lparr>revisions := revisions s @ [revision]\<rparr>))"

definition RevisionChunkRelation_create :: "CollectionItemChunk \<Rightarrow> CollectionItemRevision \<Rightarrow> database \<Rightarrow> database" where
  "RevisionChunkRelation_create chunk revision s =
     s\<lparr>relations := relations s @
        [\<lparr>rel_id = new_pk (map rel_id (relations s)), rel_chunk = chunk_id chunk,
          rel_revision = rev_id revision\<rparr>]\<rparr>"

section \<open>\<open>process_revisions_for_item\<close>\<close>

text \<open>
  \<open>revision_data\<close> is the validated \<open>content\<close> of a request: the fields \<open>chunks\<close> (under
  its source name \<open>chunks_relation\<close>), \<open>meta\<close>, \<open>uid\<close> and \<open>deleted\<close> of
  \<open>CollectionItemRevisionSerializer\<close>. A chunk reference is the tuple \<open>(uid,)\<close> or
  \<open>(uid, content)\<close>.
\<close>

type_synonym chunk_ref = "string \<times> bytes option"

record revision_data =
  rd_chunks_relation :: "chunk_ref list"
  rd_meta :: bytes
  rd_uid :: string
  rd_deleted :: bool

text \<open>
  The first loop (lines 29-39): a reference with content makes a new chunk row owned by
  the item and saves its file; a reference without content is looked up by uid among all
  chunks. Migration 0016 declares the uid of a chunk as an indexed column, not a unique
  one: saving a chunk row does not fail on its uid.
\<close>

fun process_chunks ::
  "CollectionItem \<Rightarrow> chunk_ref list \<Rightarrow> CollectionItemChunk list \<Rightarrow> database
     \<Rightarrow> error + CollectionItemChunk list \<times> database" where
  "process_chunks item [] chunks_objs s = Inr (chunks_objs, s)"
| "process_chunks item ((uid, Some content) # rest) chunks_objs s =
     (let chunk = \<lparr>chunk_id = new_pk (map chunk_id (chunks s)), chunk_uid = uid,
            chunk_item = item_id item, chunk_chunkFile = content\<rparr>
      in process_chunks item rest (chunks_objs @ [chunk]) (s\<lparr>chunks := chunks s @ [chunk]\<rparr>))"
| "process_chunks item ((uid, None) # rest) chunks_objs s =
     (case objects_get (\<lambda>c. chunk_uid c = uid) (chunks s) of
        Inl e \<Rightarrow> Inl e
      | Inr chunk \<Rightarrow> process_chunks item rest (chunks_objs @ [chunk]) s)"

definition process_revisions_for_item ::
  "CollectionItem \<Rightarrow> revision_data \<Rightarrow> database \<Rightarrow> error + CollectionItemRevision \<times> database" where
  "process_revisions_for_item item revision_data s =
     (case process_chunks item (rd_chunks_relation revision_data) [] s of
        Inl e \<Rightarrow> Inl e
      | Inr (chunks_objs, s1) \<Rightarrow>
          (case Stoken_create s1 of (stoken, s2) \<Rightarrow>
             (case CollectionItemRevision_create (rd_uid revision_data) (rd_meta revision_data)
                     (rd_deleted revision_data) (item_id item) stoken s2 of
                Inl e \<Rightarrow> Inl e
              | Inr (revision, s3) \<Rightarrow>
                  Inr (revision, fold (\<lambda>chunk. RevisionChunkRelation_create chunk revision) chunks_objs s3))))"

section \<open>\<open>CollectionItemSerializer\<close>\<close>

text \<open>The filter \<open>item.revisions.filter(current=True)\<close>.\<close>

definition is_current_of :: "pk \<Rightarrow> CollectionItemRevision \<Rightarrow> bool" where
  "is_current_of item r = (rev_item r = item \<and> rev_current r = Some True)"

text \<open>
  Modelled from the spec: the \<open>etag\<close> property of \<open>CollectionItem\<close> is defined in the
  models, which are not among the source files. The spec's data model makes it the uid of
  the item's current revision, or a sentinel (\<open>None\<close>) when there is none.
\<close>

definition CollectionItem_etag :: "database \<Rightarrow> CollectionItem \<Rightarrow> string option" where
  "CollectionItem_etag s item =
     map_option rev_uid (objects_first (is_current_of (item_id item)) (revisions s))"

text \<open>\<open>'Wrong etag. Expected {} got {}'.format(cur_etag, etag)\<close>\<close>

definition format_etag :: "string option \<Rightarrow> string" where
  "format_etag e = (case e of None \<Rightarrow> ''None'' | Some x \<Rightarrow> x)"

definition wrong_etag :: "string option \<Rightarrow> string option \<Rightarrow> error" where
  "wrong_etag expected got =
     ValidationError (''Wrong etag. Expected '' @ format_etag expected @ '' got '' @ format_etag got)"

text \<open>
  The validated data of an item request. After \<open>etag\<close>, \<open>content\<close> and \<open>uid\<close> are popped,
  what is left (\<open>version\<close>, \<open>encryptionKey\<close> and the collection the view saves the
  serializer with) is the \<open>defaults\<close> of \<open>get_or_create\<close>.
\<close>

record item_validated_data =
  vd_uid :: string
  vd_version :: nat
  vd_encryptionKey :: bytes
  vd_collection :: pk
  vd_etag :: "string option"
  vd_content :: revision_data

text \<open>
  \<open>Model.objects.get_or_create(uid=uid, defaults=validated_data)\<close>: the lookup is by uid
  alone; the defaults are used only for a row that is created.
\<close>

definition CollectionItem_get_or_create ::
  "string \<Rightarrow> item_validated_data \<Rightarrow> database \<Rightarrow> error + CollectionItem \<times> bool \<times> database" where
  "CollectionItem_get_or_create uid defaults s =
     (case filter (\<lambda>i. item_uid i = Some uid) (items s) of
        [] \<Rightarrow>
          (let instance = \<lparr>item_id = new_pk (map item_id (items s)), item_uid = Some uid,
                 item_version = vd_version defaults,
                 item_encryptionKey = Some (vd_encryptionKey defaults),
                 item_collection = vd_collection defaults\<rparr>
           in Inr (instance, True, s\<lparr>items := items s @ [instance]\<rparr>))
      | [instance] \<Rightarrow> Inr (instance, False, s)
      | _ \<Rightarrow> Inl MultipleObjectsReturned)"

text \<open>\<open>revision.save()\<close> of a loaded revision: the row with its primary key is rewritten.\<close>

definition CollectionItemRevision_save :: "CollectionItemRevision \<Rightarrow> database \<Rightarrow> database" where
  "CollectionItemRevision_save revision s =
     s\<lparr>revisions := map (\<lambda>r. if rev_id r = rev_id revision then revision else r) (revisions s)\<rparr>"

text \<open>
  Lines 143-145 and 235-237: the first current revision of the item is fetched, its
  \<open>current\<close> is set to \<open>None\<close> and it is saved. When the query finds no row, \<open>first()\<close> is
  \<open>None\<close> and the assignment raises.
\<close>

definition demote_current_revision :: "CollectionItem \<Rightarrow> database \<Rightarrow> error + database" where
  "demote_current_revision item s =
     (case objects_first (is_current_of (item_id item)) (revisions s) of
        None \<Rightarrow> Inl AttributeError
      | Some current_revision \<Rightarrow>
          Inr (CollectionItemRevision_save (current_revision\<lparr>rev_current := None\<rparr>) s))"

definition CollectionItemSerializer_create_body ::
  "bool \<Rightarrow> item_validated_data \<Rightarrow> database \<Rightarrow> error + CollectionItem \<times> database" where
  "CollectionItemSerializer_create_body validate_etag validated_data s =
     (let etag = vd_etag validated_data;
          revision_data = vd_content validated_data;
          uid = vd_uid validated_data
      in case CollectionItem_get_or_create uid validated_data s of
           Inl e \<Rightarrow> Inl e
         | Inr (instance, created, s1) \<Rightarrow>
             (let cur_etag = (if \<not> created then CollectionItem_etag s1 instance else None)
              in if validate_etag \<and> cur_etag \<noteq> etag then Inl (wrong_etag cur_etag etag)
                 else case (if \<not> created then demote_current_revision instance s1 else Inr s1) of
                        Inl e \<Rightarrow> Inl e
                      | Inr s2 \<Rightarrow>
                          (case process_revisions_for_item instance revision_data s2 of
                             Inl e \<Rightarrow> Inl e
                           | Inr (revision, s3) \<Rightarrow> Inr (instance, s3))))"

definition CollectionItemSerializer_create ::
  "bool \<Rightarrow> item_validated_data \<Rightarrow> database \<Rightarrow> (error + CollectionItem) \<times> database" where
  "CollectionItemSerializer_create validate_etag validated_data =
     atomic (CollectionItemSerializer_create_body validate_etag validated_data)"

section \<open>\<open>CollectionSerializer\<close>\<close>

text \<open>
  Modelled from the spec: \<open>main_item\<close> and \<open>etag\<close> of \<open>Collection\<close> are defined in the
  models, which are not among the source files. The main item is the collection's item
  with the null uid (the one \<open>create\<close> makes), and the collection's etag is its main
  item's etag.
\<close>

definition Collection_main_item :: "database \<Rightarrow> Collection \<Rightarrow> error + CollectionItem" where
  "Collection_main_item s c =
     objects_get (\<lambda>i. item_collection i = coll_id c \<and> item_uid i = None) (items s)"

definition Collection_etag :: "database \<Rightarrow> Collection \<Rightarrow> error + string option" where
  "Collection_etag s c =
     (case Collection_main_item s c of Inl e \<Rightarrow> Inl e | Inr i \<Rightarrow> Inr (CollectionItem_etag s i))"

text \<open>
  Modelled from the spec: the \<open>CollectionMember\<close> model is not among the source files.
  There is one membership per (collection, user) (the spec's invariant I3): saving a
  membership whose collection and user another row has raises \<open>IntegrityError\<close>. A saved
  object replaces the row with its primary key, or is added when no row has it.
\<close>

definition CollectionMember_save :: "CollectionMember \<Rightarrow> database \<Rightarrow> error + database" where
  "CollectionMember_save m s =
     (if \<exists>m' \<in> set (members s). member_id m' \<noteq> member_id m
            \<and> member_collection m' = member_collection m \<and> member_user m' = member_user m
      then Inl IntegrityError
      else if member_id m \<in> set (map member_id (members s))
      then Inr (s\<lparr>members := map (\<lambda>m'. if member_id m' = member_id m then m else m') (members s)\<rparr>)
      else Inr (s\<lparr>members := members s @ [m]\<rparr>))"

record collection_validated_data =
  cvd_uid :: string
  cvd_version :: nat
  cvd_owner :: user
  cvd_encryptionKey :: bytes
  cvd_etag :: "string option"
  cvd_content :: revision_data

definition CollectionSerializer_create_body ::
  "collection_validated_data \<Rightarrow> database \<Rightarrow> error + Collection \<times> database" where
  "CollectionSerializer_create_body validated_data s =
     (let etag = cvd_etag validated_data;
          revision_data = cvd_content validated_data;
          encryption_key = cvd_encryptionKey validated_data;
          instance = \<lparr>coll_id = new_pk (map coll_id (collections s)),
             coll_uid = cvd_uid validated_data, coll_version = cvd_version validated_data,
             coll_owner = cvd_owner validated_data\<rparr>
      in if etag \<noteq> None then Inl (ValidationError ''Stoken is not None'')
         else
           (let s1 = s\<lparr>collections := collections s @ [instance]\<rparr>;
                main_item = \<lparr>item_id = new_pk (map item_id (items s1)), item_uid = None,
                   item_version = coll_version instance, item_encryptionKey = None,
                   item_collection = coll_id instance\<rparr>;
                s2 = s1\<lparr>items := items s1 @ [main_item]\<rparr>
            in case process_revisions_for_item main_item revision_data s2 of
                 Inl e \<Rightarrow> Inl e
               | Inr (revision, s3) \<Rightarrow>
                   (case Stoken_create s3 of (stoken, s4) \<Rightarrow>
                      (case CollectionMember_save
                              \<lparr>member_id = new_pk (map member_id (members s4)),
                               member_stoken = stoken, member_collection = coll_id instance,
                               member_user = cvd_owner validated_data, member_accessLevel = ADMIN,
                               member_encryptionKey = encryption_key\<rparr> s4 of
                         Inl e \<Rightarrow> Inl e
                       | Inr s5 \<Rightarrow> Inr (instance, s5)))))"

definition CollectionSerializer_create ::
  "collection_validated_data \<Rightarrow> database \<Rightarrow> (error + Collection) \<times> database" where
  "CollectionSerializer_create validated_data = atomic (CollectionSerializer_create_body validated_data)"

definition CollectionSerializer_update_body ::
  "Collection \<Rightarrow> string option \<Rightarrow> revision_data \<Rightarrow> database \<Rightarrow> error + Collection \<times> database" where
  "CollectionSerializer_update_body instance etag revision_data s =
     (case Collection_etag s instance of
        Inl e \<Rightarrow> Inl e
      | Inr instance_etag \<Rightarrow>
          if etag \<noteq> instance_etag then Inl (wrong_etag instance_etag etag)
          else
            (case Collection_main_item s instance of
               Inl e \<Rightarrow> Inl e
             | Inr main_item \<Rightarrow>
                 (case demote_current_revision main_item s of
                    Inl e \<Rightarrow> Inl e
                  | Inr s1 \<Rightarrow>
                      (case process_revisions_for_item main_item revision_data s1 of
                         Inl e \<Rightarrow> Inl e
                       | Inr (revision, s2) \<Rightarrow> Inr (instance, s2)))))"

definition CollectionSerializer_update ::
  "Collection \<Rightarrow> string option \<Rightarrow> revision_data \<Rightarrow> database \<Rightarrow> (error + Collection) \<times> database" where
  "CollectionSerializer_update instance etag revision_data =
     atomic (CollectionSerializer_update_body instance etag revision_data)"

section \<open>Members and invitations\<close>

definition CollectionMemberSerializer_update_body ::
  "CollectionMember \<Rightarrow> AccessLevels \<Rightarrow> database \<Rightarrow> error + CollectionMember \<times> database" where
  "CollectionMemberSerializer_update_body instance access_level s =
     (if member_accessLevel instance \<noteq> access_level
      then (case Stoken_create s of (stoken, s1) \<Rightarrow>
              (let instance' = instance\<lparr>member_stoken := stoken, member_accessLevel := access_level\<rparr>
               in case CollectionMember_save instance' s1 of
                    Inl e \<Rightarrow> Inl e
                  | Inr s2 \<Rightarrow> Inr (instance', s2)))
      else Inr (instance, s))"

definition CollectionMemberSerializer_update ::
  "CollectionMember \<Rightarrow> AccessLevels \<Rightarrow> database \<Rightarrow> (error + CollectionMember) \<times> database" where
  "CollectionMemberSerializer_update instance access_level =
     atomic (CollectionMemberSerializer_update_body instance access_level)"

text \<open>
  \<open>validate_user\<close> compares \<open>request.user\<close>, a user object, with \<open>value.lower()\<close>. The
  values it can meet are a string and a user object: a user object has no \<open>lower\<close>, and
  a model instance is equal only to a model instance with the same key, never to a string.
\<close>

datatype pyval = PyStr string | PyUser user

definition lower_char :: "char \<Rightarrow> char" where
  "lower_char c =
     (if 65 \<le> (of_char c :: nat) \<and> (of_char c :: nat) \<le> 90 then char_of (of_char c + 32 :: nat) else c)"

definition py_lower :: "pyval \<Rightarrow> error + pyval" where
  "py_lower v = (case v of PyStr x \<Rightarrow> Inr (PyStr (map lower_char x)) | PyUser u \<Rightarrow> Inl AttributeError)"

fun py_eq :: "pyval \<Rightarrow> pyval \<Rightarrow> bool" where
  "py_eq (PyStr a) (PyStr b) = (a = b)"
| "py_eq (PyUser a) (PyUser b) = (a = b)"
| "py_eq _ _ = False"

definition validate_user :: "user \<Rightarrow> pyval \<Rightarrow> error + pyval" where
  "validate_user request_user v =
     (case py_lower v of
        Inl e \<Rightarrow> Inl e
      | Inr lowered \<Rightarrow>
          if py_eq (PyUser request_user) lowered
          then Inl (ValidationError ''Inviting yourself is not allowed'')
          else Inr v)"

record invitation_validated_data =
  ivd_user :: user
  ivd_uid :: string
  ivd_collection :: Collection
  ivd_signedEncryptionKey :: bytes
  ivd_accessLevel :: AccessLevels
  ivd_version :: nat

text \<open>
  \<open>create\<close> pops the collection and looks the requesting user's membership up before the
  transaction starts; the row is made from the remaining fields and that member.
  Modelled from the spec: the \<open>CollectionInvitation\<close> model is not among the source files.
  The spec's data model gives an invitation a collection; as \<open>create\<close> passes none to the
  row, it is the inviting member's. The spec enforces no uniqueness of invitations.
\<close>

definition CollectionInvitationSerializer_create ::
  "user \<Rightarrow> invitation_validated_data \<Rightarrow> database \<Rightarrow> (error + CollectionInvitation) \<times> database" where
  "CollectionInvitationSerializer_create request_user validated_data s =
     (let collection = ivd_collection validated_data
      in case objects_get (\<lambda>m. member_collection m = coll_id collection \<and> member_user m = request_user)
                (members s) of
           Inl e \<Rightarrow> (Inl e, s)
         | Inr member \<Rightarrow>
             atomic (\<lambda>s.
               (let invitation = \<lparr>inv_id = new_pk (last_invitation_id s # map inv_id (invitations s)),
                      inv_uid = ivd_uid validated_data, inv_version = ivd_version validated_data,
                      inv_fromMember = member_id member, inv_collection = member_collection member,
                      inv_user = ivd_user validated_data,
                      inv_signedEncryptionKey = ivd_signedEncryptionKey validated_data,
                      inv_accessLevel = ivd_accessLevel validated_data\<rparr>
                in Inr (invitation, s\<lparr>invitations := invitations s @ [invitation],
                                     last_invitation_id := inv_id invitation\<rparr>))) s)"

definition CollectionInvitationSerializer_update ::
  "CollectionInvitation \<Rightarrow> AccessLevels \<Rightarrow> bytes \<Rightarrow> database \<Rightarrow> (error + CollectionInvitation) \<times> database" where
  "CollectionInvitationSerializer_update instance access_level signed_key =
     atomic (\<lambda>s.
       (let instance' = instance\<lparr>inv_accessLevel := access_level, inv_signedEncryptionKey := signed_key\<rparr>
        in Inr (instance',
             if inv_id instance \<in> set (map inv_id (invitations s))
             then s\<lparr>invitations := map (\<lambda>i. if inv_id i = inv_id instance then instance' else i) (invitations s)\<rparr>
             else s\<lparr>invitations := invitations s @ [instance']\<rparr>)))"

definition InvitationAcceptSerializer_create_body ::
  "CollectionInvitation \<Rightarrow> bytes \<Rightarrow> database \<Rightarrow> error + CollectionMember \<times> database" where
  "InvitationAcceptSerializer_create_body invitation encryption_key s =
     (case Stoken_create s of (stoken, s1) \<Rightarrow>
        (let member = \<lparr>member_id = new_pk (map member_id (members s1)), member_stoken = stoken,
               member_collection = inv_collection invitation, member_user = inv_user invitation,
               member_accessLevel = inv_accessLevel invitation,
               member_encryptionKey = encryption_key\<rparr>
         in case CollectionMember_save member s1 of
              Inl e \<Rightarrow> Inl e
            | Inr s2 \<Rightarrow>
                Inr (member, s2\<lparr>invitations := filter (\<lambda>i. inv_id i \<noteq> inv_id invitation) (invitations s2)\<rparr>)))"

definition InvitationAcceptSerializer_create ::
  "CollectionInvitation \<Rightarrow> bytes \<Rightarrow> database \<Rightarrow> (error + CollectionMember) \<times> database" where
  "InvitationAcceptSerializer_create invitation encryption_key =
     atomic (InvitationAcceptSerializer_create_body invitation encryption_key)"

section \<open>Sequences of requests\<close>

datatype request =
    ItemUpsert bool item_validated_data
  | CollectionCreate collection_validated_data
  | CollectionUpdate Collection "string option" revision_data
  | MemberUpdate CollectionMember AccessLevels
  | Invite user invitation_validated_data
  | InvitationUpdate CollectionInvitation AccessLevels bytes
  | InvitationAccept CollectionInvitation bytes

fun step :: "request \<Rightarrow> database \<Rightarrow> database" where
  "step (ItemUpsert validate_etag vd) s = snd (CollectionItemSerializer_create validate_etag vd s)"
| "step (CollectionCreate vd) s = snd (CollectionSerializer_create vd s)"
| "step (CollectionUpdate c etag rd) s = snd (CollectionSerializer_update c etag rd s)"
| "step (MemberUpdate m level) s = snd (CollectionMemberSerializer_update m level s)"
| "step (Invite u vd) s = snd (CollectionInvitationSerializer_create u vd s)"
| "step (InvitationUpdate i level key) s = snd (CollectionInvitationSerializer_update i level key s)"
| "step (InvitationAccept i key) s = snd (InvitationAcceptSerializer_create i key s)"

definition run :: "request list \<Rightarrow> database \<Rightarrow> database" where
  "run requests s = fold step requests s"

section \<open>Binary fields at the boundary\<close>

text \<open>
  The tables of the library's codec (RFC 4648): a sextet to its character, and back.
\<close>

definition b64_alphabet :: string where
  "b64_alphabet = ''ABCDEFGHIJKLMNOPQRSTUVWXYZabcdefghijklmnopqrstuvwxyz0123456789+/''"

definition table_b2a_base64 :: "nat \<Rightarrow> char" where
  "table_b2a_base64 n = b64_alphabet ! n"

definition table_a2b_base64 :: "char \<Rightarrow> nat option" where
  "table_a2b_base64 c = map_of (zip b64_alphabet [0..<64]) c"

text \<open>
  \<open>binascii.b2a_base64\<close>: three bytes make four characters; a last group of one or two
  bytes is padded with \<open>=\<close>.
\<close>

fun b2a_base64 :: "bytes \<Rightarrow> string" where
  "b2a_base64 (a # b # c # rest) =
     [table_b2a_base64 (unat a div 4),
      table_b2a_base64 (unat a mod 4 * 16 + unat b div 16),
      table_b2a_base64 (unat b mod 16 * 4 + unat c div 64),
      table_b2a_base64 (unat c mod 64)] @ b2a_base64 rest"
| "b2a_base64 [a, b] =
     [table_b2a_base64 (unat a div 4),
      table_b2a_base64 (unat a mod 4 * 16 + unat b div 16),
      table_b2a_base64 (unat b mod 16 * 4), CHR ''='']"
| "b2a_base64 [a] =
     [table_b2a_base64 (unat a div 4), table_b2a_base64 (unat a mod 4 * 16), CHR ''='', CHR ''='']"
| "b2a_base64 [] = []"

text \<open>
  \<open>base64.urlsafe_b64encode\<close> and \<open>urlsafe_b64decode\<close> translate \<open>+\<close> and \<open>/\<close> to
  \<open>-\<close> and \<open>_\<close> and back around the standard codec.
\<close>

definition urlsafe_encode_translation :: "char \<Rightarrow> char" where
  "urlsafe_encode_translation c =
     (if c = CHR ''+'' then CHR ''-'' else if c = CHR ''/'' then CHR ''_'' else c)"

definition urlsafe_decode_translation :: "char \<Rightarrow> char" where
  "urlsafe_decode_translation c =
     (if c = CHR ''-'' then CHR ''+'' else if c = CHR ''_'' then CHR ''/'' else c)"

definition urlsafe_b64encode :: "bytes \<Rightarrow> string" where
  "urlsafe_b64encode s = map urlsafe_encode_translation (b2a_base64 s)"

text \<open>
  \<open>binascii.a2b_base64\<close>, not validating: characters outside the alphabet are skipped;
  a pad ends the input when two characters of the quantum were read (and, after exactly
  two, the next valid character is a pad too), and is skipped otherwise; input that ends
  with bits left over is an error. The state is the position in the quantum, the bits not
  yet written and their number.
\<close>

fun find_valid :: "string \<Rightarrow> char option" where
  "find_valid [] = None"
| "find_valid (c # cs) =
     (if c = CHR ''='' \<or> table_a2b_base64 c \<noteq> None then Some c else find_valid cs)"

fun a2b_base64 :: "nat \<Rightarrow> nat \<Rightarrow> nat \<Rightarrow> string \<Rightarrow> error + bytes" where
  "a2b_base64 quad_pos leftchar leftbits [] =
     (if leftbits \<noteq> 0 then Inl BinasciiError else Inr [])"
| "a2b_base64 quad_pos leftchar leftbits (c # cs) =
     (if c = CHR ''='' then
        (if quad_pos < 2 \<or> (quad_pos = 2 \<and> find_valid cs \<noteq> Some CHR ''='')
         then a2b_base64 quad_pos leftchar leftbits cs
         else Inr [])
      else
        (case table_a2b_base64 c of
           None \<Rightarrow> a2b_base64 quad_pos leftchar leftbits cs
         | Some this_ch \<Rightarrow>
             (let quad_pos' = (quad_pos + 1) mod 4;
                  leftchar' = leftchar * 64 + this_ch;
                  leftbits' = leftbits + 6
              in if leftbits' \<ge> 8
                 then (case a2b_base64 quad_pos' (leftchar' mod 2 ^ (leftbits' - 8)) (leftbits' - 8) cs of
                         Inl e \<Rightarrow> Inl e
                       | Inr out \<Rightarrow> Inr (of_nat (leftchar' div 2 ^ (leftbits' - 8) mod 256) # out))
                 else a2b_base64 quad_pos' leftchar' leftbits' cs)))"

text \<open>A string with a character outside ASCII is refused before decoding.\<close>

definition urlsafe_b64decode :: "string \<Rightarrow> error + bytes" where
  "urlsafe_b64decode s =
     (if \<exists>c \<in> set s. (of_char c :: nat) > 127 then Inl ValueError
      else a2b_base64 0 0 0 (map urlsafe_decode_translation s))"

text \<open>\<open>str.strip(c)\<close> removes the character at both ends.\<close>

definition py_strip :: "char \<Rightarrow> string \<Rightarrow> string" where
  "py_strip c s = rev (dropWhile (\<lambda>x. x = c) (rev (dropWhile (\<lambda>x. x = c) s)))"

text \<open>Lines 49-55 of the source.\<close>

definition b64encode :: "bytes \<Rightarrow> string" where
  "b64encode v = py_strip CHR ''='' (urlsafe_b64encode v)"

definition b64decode :: "string \<Rightarrow> error + bytes" where
  "b64decode data =
     urlsafe_b64decode (data @ replicate ((4 - length data mod 4) mod 4) CHR ''='')"

abbreviation (input) decoded_char :: "nat \<Rightarrow> char" where
  "decoded_char n \<equiv> urlsafe_decode_translation (urlsafe_encode_translation (table_b2a_base64 n))"

text \<open>
  \<open>ChunksField.to_internal_value\<close> (lines 92-93) makes a chunk reference of validated data
  from the array of strings a request sends for it: \<open>(data[0], b64decode(data[1]))\<close>. An
  array with fewer than two elements raises on the missing index, and the content is
  decoded after the uid is read.
\<close>

definition ChunksField_to_internal_value :: "string list \<Rightarrow> error + string \<times> bytes option" where
  "ChunksField_to_internal_value data =
     (case data of
        uid # content # _ \<Rightarrow>
          (case b64decode content of Inl e \<Rightarrow> Inl e | Inr v \<Rightarrow> Inr (uid, Some v))
      | _ \<Rightarrow> Inl IndexError)"

section \<open>Vocabulary of the properties\<close>

text \<open>The references of a request that carry content, and a stored chunk read back as one.\<close>

definition inline_refs :: "chunk_ref list \<Rightarrow> chunk_ref list" where
  "inline_refs refs = filter (\<lambda>r. snd r \<noteq> None) refs"

definition as_ref :: "CollectionItemChunk \<Rightarrow> chunk_ref" where
  "as_ref c = (chunk_uid c, Some (chunk_chunkFile c))"

text \<open>
  The number of references with content before position \<open>i\<close> of a request: when the
  reference at \<open>i\<close> is processed, that many chunks of the request have been stored. A
  request resolves against the stored chunks when every reference without content has
  the uid of exactly one chunk among the stored ones and those the request carries
  before that reference.
\<close>

definition uploads_before :: "chunk_ref list \<Rightarrow> nat \<Rightarrow> nat" where
  "uploads_before refs i = length (inline_refs (take i refs))"

definition refs_resolve :: "CollectionItemChunk list \<Rightarrow> chunk_ref list \<Rightarrow> bool" where
  "refs_resolve stored refs =
     list_all (\<lambda>i. snd (refs ! i) = None \<longrightarrow>
                 length (filter (\<lambda>c. chunk_uid c = fst (refs ! i)) stored)
                   + length (filter (\<lambda>r. fst r = fst (refs ! i)) (inline_refs (take i refs))) = 1)
       [0..<length refs]"

text \<open>
  The current revisions of an item, and the invariant of the revision tables: revision
  keys are unique, every revision belongs to an item row, and every item row has exactly
  one current revision. An item that was never created has no row, hence no revision.
\<close>

definition current_revisions :: "database \<Rightarrow> pk \<Rightarrow> CollectionItemRevision list" where
  "current_revisions s item = filter (is_current_of item) (revisions s)"

definition db_invariant :: "database \<Rightarrow> bool" where
  "db_invariant s =
     (distinct (map rev_id (revisions s))
      \<and> list_all (\<lambda>r. rev_item r \<in> set (map item_id (items s))) (revisions s)
      \<and> list_all (\<lambda>i. length (current_revisions s (item_id i)) = 1) (items s))"

text \<open>
  One mutation of an existing item: its one current revision \<open>old\<close> is demoted in place
  and one new current revision is appended; no other revision changes.
\<close>

definition supersedes :: "database \<Rightarrow> database \<Rightarrow> pk \<Rightarrow> bool" where
  "supersedes s s' item =
     (\<exists>old new. current_revisions s item = [old] \<and> current_revisions s' item = [new]
        \<and> rev_item new = item \<and> new \<notin> set (revisions s)
        \<and> revisions s' =
            map (\<lambda>r. if r = old then old\<lparr>rev_current := None\<rparr> else r) (revisions s) @ [new])"

text \<open>
  The etag an upsert of \<open>uid\<close> is checked against: the etag of the item with that uid, or
  \<open>None\<close> when there is no such item.
\<close>

definition current_etag :: "database \<Rightarrow> string \<Rightarrow> string option" where
  "current_etag s uid =
     (case filter (\<lambda>i. item_uid i = Some uid) (items s) of
        [] \<Rightarrow> None
      | i # _ \<Rightarrow> CollectionItem_etag s i)"

text \<open>Every membership belongs to a collection row.\<close>

definition members_of_collections :: "database \<Rightarrow> bool" where
  "members_of_collections s =
     list_all (\<lambda>m. member_collection m \<in> set (map coll_id (collections s))) (members s)"

text \<open>
  The stoken table of \<open>s'\<close> is that of \<open>s\<close> followed by new tokens, each above all tokens
  of \<open>s\<close>, in strictly increasing order.
\<close>

definition stokens_grow :: "database \<Rightarrow> database \<Rightarrow> bool" where
  "stokens_grow s s' =
     (let n = length (stokens s); ts = drop n (stokens s')
      in take n (stokens s') = stokens s \<and> sorted_wrt (<) ts
         \<and> list_all (\<lambda>t. list_all (\<lambda>u. u < t) (stokens s)) ts)"

section \<open>Example requests\<close>

definition ex_item :: CollectionItem where
  "ex_item = \<lparr>item_id = 1, item_uid = Some ''item-a'', item_version = 1,
     item_encryptionKey = Some [9], item_collection = 1\<rparr>"

definition ex_db :: database where
  "ex_db = empty_db\<lparr>items := [ex_item]\<rparr>"

definition ex_rd :: revision_data where
  "ex_rd = \<lparr>rd_chunks_relation = [(''c1'', Some [1, 2]), (''c2'', Some [3]), (''c1'', None)],
     rd_meta = [7], rd_uid = ''r0'', rd_deleted = False\<rparr>"

definition ex_rev :: CollectionItemRevision where
  "ex_rev = \<lparr>rev_id = 1, rev_stoken = 1, rev_uid = ''r0'', rev_item = 1,
     rev_meta = [7], rev_current = Some True, rev_deleted = False\<rparr>"

definition ex_db_rev :: database where
  "ex_db_rev = \<lparr>stokens = [1], collections = [], items = [ex_item],
     chunks = [\<lparr>chunk_id = 1, chunk_uid = ''c1'', chunk_item = 1, chunk_chunkFile = [1, 2]\<rparr>,
               \<lparr>chunk_id = 2, chunk_uid = ''c2'', chunk_item = 1, chunk_chunkFile = [3]\<rparr>],
     revisions = [ex_rev],
     relations = [\<lparr>rel_id = 1, rel_chunk = 1, rel_revision = 1\<rparr>,
                  \<lparr>rel_id = 2, rel_chunk = 2, rel_revision = 1\<rparr>,
                  \<lparr>rel_id = 3, rel_chunk = 1, rel_revision = 1\<rparr>],
     members = [], invitations = [], last_invitation_id = 0\<rparr>"

text \<open>
  A reference that comes before the upload of its chunk, and a second item that uploads
  a chunk under a uid that is stored already.
\<close>

definition ex_rd_early :: revision_data where
  "ex_rd_early = \<lparr>rd_chunks_relation = [(''c9'', None), (''c9'', Some [1])],
     rd_meta = [7], rd_uid = ''r0'', rd_deleted = False\<rparr>"

definition ex_item_b :: CollectionItem where
  "ex_item_b = \<lparr>item_id = 2, item_uid = Some ''item-b'', item_version = 1,
     item_encryptionKey = Some [9], item_collection = 1\<rparr>"

definition ex_db_b :: database where
  "ex_db_b = ex_db_rev\<lparr>items := [ex_item, ex_item_b]\<rparr>"

definition ex_rd_reupload :: revision_data where
  "ex_rd_reupload = \<lparr>rd_chunks_relation = [(''c2'', None), (''c1'', Some [5])],
     rd_meta = [8], rd_uid = ''r1'', rd_deleted = False\<rparr>"

definition ex_rd_twice :: revision_data where
  "ex_rd_twice = \<lparr>rd_chunks_relation = [(''c1'', Some [5]), (''c1'', None)],
     rd_meta = [8], rd_uid = ''r1'', rd_deleted = False\<rparr>"

definition ex_rev_b :: CollectionItemRevision where
  "ex_rev_b = \<lparr>rev_id = 2, rev_stoken = 2, rev_uid = ''r1'', rev_item = 2,
     rev_meta = [8], rev_current = Some True, rev_deleted = False\<rparr>"

definition ex_db_b_rev :: database where
  "ex_db_b_rev = ex_db_b\<lparr>
     chunks := chunks ex_db_b @
       [\<lparr>chunk_id = 3, chunk_uid = ''c1'', chunk_item = 2, chunk_chunkFile = [5]\<rparr>],
     stokens := [1, 2],
     revisions := [ex_rev, ex_rev_b],
     relations := relations ex_db_b @
       [\<lparr>rel_id = 4, rel_chunk = 2, rel_revision = 2\<rparr>,
        \<lparr>rel_id = 5, rel_chunk = 3, rel_revision = 2\<rparr>]\<rparr>"

text \<open>
  A session: alice creates a collection, adds an item, changes the item, and changes the
  collection.
\<close>

definition ex_cvd :: collection_validated_data where
  "ex_cvd = \<lparr>cvd_uid = ''col'', cvd_version = 1, cvd_owner = ''alice'', cvd_encryptionKey = [5],
     cvd_etag = None,
     cvd_content = \<lparr>rd_chunks_relation = [(''c1'', Some [1, 2])], rd_meta = [7], rd_uid = ''r0'',
       rd_deleted = False\<rparr>\<rparr>"

definition ex_vd :: item_validated_data where
  "ex_vd = \<lparr>vd_uid = ''item-a'', vd_version = 1, vd_encryptionKey = [9], vd_collection = 1,
     vd_etag = None,
     vd_content = \<lparr>rd_chunks_relation = [(''c2'', Some [3])], rd_meta = [8], rd_uid = ''r1'',
       rd_deleted = False\<rparr>\<rparr>"

definition ex_vd2 :: item_validated_data where
  "ex_vd2 = \<lparr>vd_uid = ''item-a'', vd_version = 2, vd_encryptionKey = [6], vd_collection = 4,
     vd_etag = Some ''r1'',
     vd_content = \<lparr>rd_chunks_relation = [(''c2'', None), (''c3'', Some [4])], rd_meta = [8, 8],
       rd_uid = ''r2'', rd_deleted = False\<rparr>\<rparr>"

definition ex_coll :: Collection where
  "ex_coll = \<lparr>coll_id = 1, coll_uid = ''col'', coll_version = 1, coll_owner = ''alice''\<rparr>"

definition ex_rd_coll :: revision_data where
  "ex_rd_coll = \<lparr>rd_chunks_relation = [(''c1'', None)], rd_meta = [7, 7], rd_uid = ''r3'',
     rd_deleted = False\<rparr>"

definition ex_main_item :: CollectionItem where
  "ex_main_item = \<lparr>item_id = 1, item_uid = None, item_version = 1, item_encryptionKey = None,
     item_collection = 1\<rparr>"

definition ex_item_a :: CollectionItem where
  "ex_item_a = \<lparr>item_id = 2, item_uid = Some ''item-a'', item_version = 1,
     item_encryptionKey = Some [9], item_collection = 1\<rparr>"

definition ex_s1 :: database where
  "ex_s1 = run [CollectionCreate ex_cvd, ItemUpsert True ex_vd] empty_db"

definition ex_s2 :: database where
  "ex_s2 = run [ItemUpsert True ex_vd2] ex_s1"

definition ex_s3 :: database where
  "ex_s3 = run [CollectionUpdate ex_coll (Some ''r0'') ex_rd_coll] ex_s1"

definition ex_vd_stale :: item_validated_data where
  "ex_vd_stale = ex_vd2\<lparr>vd_etag := Some ''r0''\<rparr>"

definition ex_cvd_etag :: collection_validated_data where
  "ex_cvd_etag = ex_cvd\<lparr>cvd_uid := ''col2'', cvd_etag := Some ''r0''\<rparr>"

definition ex_s0 :: database where
  "ex_s0 = run [CollectionCreate ex_cvd] empty_db"

text \<open>Alice invites bob, bob accepts; and alice invites herself.\<close>

definition ex_ivd :: invitation_validated_data where
  "ex_ivd = \<lparr>ivd_user = ''bob'', ivd_uid = ''inv1'', ivd_collection = ex_coll,
     ivd_signedEncryptionKey = [11], ivd_accessLevel = READ_WRITE, ivd_version = 1\<rparr>"

definition ex_invitation :: CollectionInvitation where
  "ex_invitation = \<lparr>inv_id = 1, inv_uid = ''inv1'', inv_version = 1, inv_fromMember = 1,
     inv_collection = 1, inv_user = ''bob'', inv_signedEncryptionKey = [11],
     inv_accessLevel = READ_WRITE\<rparr>"

definition ex_member_bob :: CollectionMember where
  "ex_member_bob = \<lparr>member_id = 2, member_stoken = 4, member_collection = 1,
     member_user = ''bob'', member_accessLevel = READ_WRITE, member_encryptionKey = [12]\<rparr>"

definition ex_s_invited :: database where
  "ex_s_invited = run [Invite ''alice'' ex_ivd] ex_s1"

definition ex_s_accepted :: database where
  "ex_s_accepted = run [InvitationAccept ex_invitation [12]] ex_s_invited"

definition ex_ivd_self :: invitation_validated_data where
  "ex_ivd_self = \<lparr>ivd_user = ''alice'', ivd_uid = ''inv2'', ivd_collection = ex_coll,
     ivd_signedEncryptionKey = [11], ivd_accessLevel = READ_ONLY, ivd_version = 1\<rparr>"

definition ex_self_invitation :: CollectionInvitation where
  "ex_self_invitation = \<lparr>inv_id = 1, inv_uid = ''inv2'', inv_version = 1, inv_fromMember = 1,
     inv_collection = 1, inv_user = ''alice'', inv_signedEncryptionKey = [11],
     inv_accessLevel = READ_ONLY\<rparr>"

definition ex_member_alice :: CollectionMember where
  "ex_member_alice = \<lparr>member_id = 1, member_stoken = 2, member_collection = 1,
     member_user = ''alice'', member_accessLevel = ADMIN, member_encryptionKey = [5]\<rparr>"

definition ex_session :: "request list" where
  "ex_session = [CollectionCreate ex_cvd, ItemUpsert True ex_vd, Invite ''alice'' ex_ivd,
     InvitationAccept ex_invitation [12], MemberUpdate ex_member_bob ADMIN]"

text \<open>The item is changed again with its chunk uploaded a second time, then with the chunk named by uid.\<close>

definition ex_vd_again :: item_validated_data where
  "ex_vd_again = \<lparr>vd_uid = ''item-a'', vd_version = 1, vd_encryptionKey = [9], vd_collection = 1,
     vd_etag = Some ''r1'',
     vd_content = \<lparr>rd_chunks_relation = [(''c2'', Some [3])], rd_meta = [8, 9], rd_uid = ''r6'',
       rd_deleted = False\<rparr>\<rparr>"

definition ex_vd_reuse :: item_validated_data where
  "ex_vd_reuse = \<lparr>vd_uid = ''item-a'', vd_version = 1, vd_encryptionKey = [9], vd_collection = 1,
     vd_etag = Some ''r6'',
     vd_content = \<lparr>rd_chunks_relation = [(''c2'', None)], rd_meta = [8, 9, 9], rd_uid = ''r7'',
       rd_deleted = False\<rparr>\<rparr>"

definition ex_s_again :: database where
  "ex_s_again = run [ItemUpsert True ex_vd_again] ex_s1"

section \<open>Properties\<close>

subsection \<open>Keys and lookups\<close>


lemma fold_max_ge: "a \<le> fold max ids (a::nat)"
  by (induction ids arbitrary: a) (auto intro: order_trans [OF max.cobounded2])

lemma fold_max_mem: "x \<in> set ids \<Longrightarrow> x \<le> fold max ids (a::nat)"
proof (induction ids arbitrary: a)
  case Nil then show ?case by simp
next
  case (Cons y ys)
  show ?case
  proof (cases "x = y")
    case True
    have "y \<le> max y a" by simp
    also have "\<dots> \<le> fold max ys (max y a)" by (rule fold_max_ge)
    finally show ?thesis using True by simp
  next
    case False
    with Cons show ?thesis by simp
  qed
qed

lemma new_pk_fresh: "x \<in> set ids \<Longrightarrow> x < new_pk ids"
  by (simp add: new_pk_def less_Suc_eq_le fold_max_mem)

lemma new_pk_notin: "new_pk ids \<notin> set ids"
  using new_pk_fresh [of "new_pk ids" ids] by auto

lemma objects_get_Inr: "objects_get P rows = Inr x \<Longrightarrow> x \<in> set rows \<and> P x"
  unfolding objects_get_def
  by (auto split: list.splits dest!: arg_cong [where f = set])

lemma process_chunks_Inr:
  "process_chunks item refs objs s = Inr (objs', s') \<Longrightarrow>
     \<exists>new added. objs' = objs @ new \<and> map chunk_uid new = map fst refs
       \<and> set new \<subseteq> set (chunks s')
       \<and> s' = s\<lparr>chunks := chunks s @ added\<rparr>
       \<and> map as_ref added = inline_refs refs
       \<and> (\<forall>c \<in> set added. chunk_item c = item_id item)"
proof (induction item refs objs s arbitrary: objs' s' rule: process_chunks.induct)
  case (1 item chunks_objs s)
  then show ?case by (simp add: inline_refs_def)
next
  case (2 item uid content rest chunks_objs s)
  let ?chunk = "\<lparr>chunk_id = new_pk (map chunk_id (chunks s)), chunk_uid = uid,
            chunk_item = item_id item, chunk_chunkFile = content\<rparr>"
  from 2(2) have "process_chunks item rest (chunks_objs @ [?chunk]) (s\<lparr>chunks := chunks s @ [?chunk]\<rparr>) = Inr (objs', s')"
    by (simp add: Let_def)
  from 2(1) [OF refl this] obtain new added where
    h: "objs' = (chunks_objs @ [?chunk]) @ new" "map chunk_uid new = map fst rest"
       "set new \<subseteq> set (chunks s')" "s' = (s\<lparr>chunks := chunks s @ [?chunk]\<rparr>)\<lparr>chunks := chunks (s\<lparr>chunks := chunks s @ [?chunk]\<rparr>) @ added\<rparr>"
       "map as_ref added = inline_refs rest" "\<forall>c \<in> set added. chunk_item c = item_id item"
    by blast
  have a: "as_ref ?chunk = (uid, Some content)" by (simp add: as_ref_def)
  show ?case
    apply (rule exI [where x = "?chunk # new"])
    apply (rule exI [where x = "?chunk # added"])
    using h a by (simp add: inline_refs_def)
next
  case (3 item uid rest chunks_objs s)
  from 3(2) obtain chunk where g: "objects_get (\<lambda>c. chunk_uid c = uid) (chunks s) = Inr chunk"
    and p: "process_chunks item rest (chunks_objs @ [chunk]) s = Inr (objs', s')"
    by (auto split: sum.splits)
  from 3(1) [OF g p] obtain new added where
    h: "objs' = (chunks_objs @ [chunk]) @ new" "map chunk_uid new = map fst rest"
       "set new \<subseteq> set (chunks s')" "s' = s\<lparr>chunks := chunks s @ added\<rparr>"
       "map as_ref added = inline_refs rest" "\<forall>c \<in> set added. chunk_item c = item_id item"
    by blast
  from objects_get_Inr [OF g] have "chunk \<in> set (chunks s)" "chunk_uid chunk = uid" by auto
  show ?case
    apply (rule exI [where x = "chunk # new"])
    apply (rule exI [where x = "added"])
    using h \<open>chunk \<in> set (chunks s)\<close> \<open>chunk_uid chunk = uid\<close> by (simp add: inline_refs_def)
qed

subsection \<open>Creating a revision\<close>


lemma fold_RevisionChunkRelation_create:
  "\<exists>links. fold (\<lambda>chunk. RevisionChunkRelation_create chunk revision) objs s
        = s\<lparr>relations := relations s @ links\<rparr>
     \<and> map rel_chunk links = map chunk_id objs
     \<and> (\<forall>l \<in> set links. rel_revision l = rev_id revision)"
proof (induction objs arbitrary: s)
  case Nil
  show ?case by (rule exI [where x = "[]"]) simp
next
  case (Cons c cs)
  let ?l = "\<lparr>rel_id = new_pk (map rel_id (relations s)), rel_chunk = chunk_id c,
          rel_revision = rev_id revision\<rparr>"
  let ?s1 = "s\<lparr>relations := relations s @ [?l]\<rparr>"
  have rc: "RevisionChunkRelation_create c revision s = ?s1"
    by (simp add: RevisionChunkRelation_create_def)
  from Cons [of ?s1] obtain links where
    h: "fold (\<lambda>chunk. RevisionChunkRelation_create chunk revision) cs ?s1
          = ?s1\<lparr>relations := relations ?s1 @ links\<rparr>"
       "map rel_chunk links = map chunk_id cs" "\<forall>l \<in> set links. rel_revision l = rev_id revision"
    by blast
  show ?case
    apply (rule exI [where x = "?l # links"])
    using h by (simp add: rc)
qed

lemma process_revisions_for_item_Inr:
  assumes "process_revisions_for_item item rd s = Inr (revision, s')"
  shows "\<exists>chunks_objs added links.
           s' = s\<lparr>chunks := chunks s @ added, stokens := stokens s @ [new_pk (stokens s)],
                  revisions := revisions s @ [revision], relations := relations s @ links\<rparr>
         \<and> revision = \<lparr>rev_id = new_pk (map rev_id (revisions s)), rev_stoken = new_pk (stokens s),
             rev_uid = rd_uid rd, rev_item = item_id item, rev_meta = rd_meta rd,
             rev_current = Some True, rev_deleted = rd_deleted rd\<rparr>
         \<and> map as_ref added = inline_refs (rd_chunks_relation rd)
         \<and> (\<forall>c \<in> set added. chunk_item c = item_id item)
         \<and> set chunks_objs \<subseteq> set (chunks s @ added)
         \<and> map chunk_uid chunks_objs = map fst (rd_chunks_relation rd)
         \<and> map rel_chunk links = map chunk_id chunks_objs
         \<and> (\<forall>l \<in> set links. rel_revision l = rev_id revision)
         \<and> (\<forall>r \<in> set (revisions s). \<not> is_current_of (item_id item) r)"
proof -
  from assms obtain chunks_objs s1 where
    pc: "process_chunks item (rd_chunks_relation rd) [] s = Inr (chunks_objs, s1)"
    by (auto simp: process_revisions_for_item_def split: sum.splits)
  from process_chunks_Inr [OF pc] obtain added where
    a: "map chunk_uid chunks_objs = map fst (rd_chunks_relation rd)"
       "set chunks_objs \<subseteq> set (chunks s1)" "s1 = s\<lparr>chunks := chunks s @ added\<rparr>"
       "map as_ref added = inline_refs (rd_chunks_relation rd)"
       "\<forall>c \<in> set added. chunk_item c = item_id item"
    by auto
  let ?t = "new_pk (stokens s)"
  let ?s2 = "s1\<lparr>stokens := stokens s @ [?t]\<rparr>"
  let ?r = "\<lparr>rev_id = new_pk (map rev_id (revisions s)), rev_stoken = ?t,
             rev_uid = rd_uid rd, rev_item = item_id item, rev_meta = rd_meta rd,
             rev_current = Some True, rev_deleted = rd_deleted rd\<rparr>"
  let ?s3 = "?s2\<lparr>revisions := revisions s @ [?r]\<rparr>"
  from assms pc a(3) have r: "revision = ?r"
    and f: "s' = fold (\<lambda>chunk. RevisionChunkRelation_create chunk revision) chunks_objs ?s3"
    and u: "\<forall>r \<in> set (revisions s). \<not> is_current_of (item_id item) r"
    by (auto simp: process_revisions_for_item_def Stoken_create_def Let_def is_current_of_def
          CollectionItemRevision_create_def split: if_splits)
  from fold_RevisionChunkRelation_create [of revision chunks_objs ?s3] f obtain links where
    l: "s' = ?s3\<lparr>relations := relations ?s3 @ links\<rparr>" "map rel_chunk links = map chunk_id chunks_objs"
       "\<forall>l \<in> set links. rel_revision l = rev_id revision"
    by auto
  have s': "s' = s\<lparr>chunks := chunks s @ added, stokens := stokens s @ [new_pk (stokens s)],
                  revisions := revisions s @ [revision], relations := relations s @ links\<rparr>"
    using l(1) a(3) r by simp
  show ?thesis
    apply (rule exI [where x = chunks_objs])
    apply (rule exI [where x = added])
    apply (rule exI [where x = links])
    using s' r a(1,2,3,4,5) l(2,3) u by simp
qed

text \<open>The references are processed in their order.\<close>

lemma uploads_before_0: "uploads_before refs 0 = 0"
  by (simp add: uploads_before_def inline_refs_def)

lemma uploads_before_Suc_Some:
  "uploads_before ((uid, Some content) # rest) (Suc i) = Suc (uploads_before rest i)"
  by (simp add: uploads_before_def inline_refs_def)

lemma uploads_before_Suc_None:
  "uploads_before ((uid, None) # rest) (Suc i) = uploads_before rest i"
  by (simp add: uploads_before_def inline_refs_def)

lemma objects_get_single: "objects_get P rows = Inr x \<longleftrightarrow> filter P rows = [x]"
  by (auto simp: objects_get_def split: list.splits)

lemma process_chunks_order:
  "process_chunks item refs objs s = Inr (objs', s') \<Longrightarrow>
     \<exists>new added. objs' = objs @ new \<and> chunks s' = chunks s @ added
       \<and> length new = length refs
       \<and> (\<forall>j < length added.
             chunk_id (added ! j) = new_pk (map chunk_id (chunks s @ take j added))
           \<and> chunk_item (added ! j) = item_id item)
       \<and> (\<forall>i < length refs.
             (case refs ! i of
                (uid, Some content) \<Rightarrow>
                  uploads_before refs i < length added \<and> new ! i = added ! uploads_before refs i
                  \<and> as_ref (new ! i) = refs ! i
              | (uid, None) \<Rightarrow>
                  filter (\<lambda>c. chunk_uid c = uid) (chunks s @ take (uploads_before refs i) added)
                    = [new ! i]))"
proof (induction item refs objs s arbitrary: objs' s' rule: process_chunks.induct)
  case (1 item chunks_objs s)
  then show ?case by simp
next
  case (2 item uid content rest chunks_objs s)
  let ?chunk = "\<lparr>chunk_id = new_pk (map chunk_id (chunks s)), chunk_uid = uid,
            chunk_item = item_id item, chunk_chunkFile = content\<rparr>"
  let ?s1 = "s\<lparr>chunks := chunks s @ [?chunk]\<rparr>"
  let ?refs = "(uid, Some content) # rest"
  from 2(2) have "process_chunks item rest (chunks_objs @ [?chunk]) ?s1 = Inr (objs', s')"
    by (simp add: Let_def)
  from 2(1) [OF refl this] obtain new added where
    h: "objs' = (chunks_objs @ [?chunk]) @ new" "chunks s' = chunks ?s1 @ added"
       "length new = length rest"
    and ids: "\<And>j. j < length added \<Longrightarrow>
             chunk_id (added ! j) = new_pk (map chunk_id (chunks ?s1 @ take j added))
           \<and> chunk_item (added ! j) = item_id item"
    and pos: "\<And>i. i < length rest \<Longrightarrow>
             (case rest ! i of
                (uid, Some content) \<Rightarrow>
                  uploads_before rest i < length added \<and> new ! i = added ! uploads_before rest i
                  \<and> as_ref (new ! i) = rest ! i
              | (uid, None) \<Rightarrow>
                  filter (\<lambda>c. chunk_uid c = uid) (chunks ?s1 @ take (uploads_before rest i) added)
                    = [new ! i])"
    by blast
  have ids': "chunk_id ((?chunk # added) ! j) = new_pk (map chunk_id (chunks s @ take j (?chunk # added)))
           \<and> chunk_item ((?chunk # added) ! j) = item_id item" if "j < length (?chunk # added)" for j
  proof (cases j)
    case 0
    then show ?thesis by simp
  next
    case (Suc k)
    with that ids [of k] show ?thesis by simp
  qed
  have pos': "(case ?refs ! i of
                (uid, Some content) \<Rightarrow>
                  uploads_before ?refs i < length (?chunk # added)
                  \<and> (?chunk # new) ! i = (?chunk # added) ! uploads_before ?refs i
                  \<and> as_ref ((?chunk # new) ! i) = ?refs ! i
              | (uid, None) \<Rightarrow>
                  filter (\<lambda>c. chunk_uid c = uid) (chunks s @ take (uploads_before ?refs i) (?chunk # added))
                    = [(?chunk # new) ! i])" if "i < length ?refs" for i
  proof (cases i)
    case 0
    then show ?thesis by (simp add: uploads_before_0 as_ref_def)
  next
    case (Suc k)
    with that have k: "k < length rest" by simp
    show ?thesis
      using pos [OF k]
      by (auto simp: Suc uploads_before_Suc_Some split: prod.splits option.splits if_splits)
  qed
  show ?case
    apply (rule exI [where x = "?chunk # new"])
    apply (rule exI [where x = "?chunk # added"])
    using h ids' pos' by simp
next
  case (3 item uid rest chunks_objs s)
  let ?refs = "(uid, None) # rest"
  from 3(2) obtain chunk where g: "objects_get (\<lambda>c. chunk_uid c = uid) (chunks s) = Inr chunk"
    and p: "process_chunks item rest (chunks_objs @ [chunk]) s = Inr (objs', s')"
    by (auto split: sum.splits)
  from 3(1) [OF g p] obtain new added where
    h: "objs' = (chunks_objs @ [chunk]) @ new" "chunks s' = chunks s @ added"
       "length new = length rest"
    and ids: "\<And>j. j < length added \<Longrightarrow>
             chunk_id (added ! j) = new_pk (map chunk_id (chunks s @ take j added))
           \<and> chunk_item (added ! j) = item_id item"
    and pos: "\<And>i. i < length rest \<Longrightarrow>
             (case rest ! i of
                (uid, Some content) \<Rightarrow>
                  uploads_before rest i < length added \<and> new ! i = added ! uploads_before rest i
                  \<and> as_ref (new ! i) = rest ! i
              | (uid, None) \<Rightarrow>
                  filter (\<lambda>c. chunk_uid c = uid) (chunks s @ take (uploads_before rest i) added)
                    = [new ! i])"
    by blast
  from g have single: "filter (\<lambda>c. chunk_uid c = uid) (chunks s) = [chunk]"
    by (simp add: objects_get_single)
  have pos': "(case ?refs ! i of
                (uid, Some content) \<Rightarrow>
                  uploads_before ?refs i < length added
                  \<and> (chunk # new) ! i = added ! uploads_before ?refs i
                  \<and> as_ref ((chunk # new) ! i) = ?refs ! i
              | (uid, None) \<Rightarrow>
                  filter (\<lambda>c. chunk_uid c = uid) (chunks s @ take (uploads_before ?refs i) added)
                    = [(chunk # new) ! i])" if "i < length ?refs" for i
  proof (cases i)
    case 0
    then show ?thesis using single by (simp add: uploads_before_0)
  next
    case (Suc k)
    with that have k: "k < length rest" by simp
    show ?thesis
      using pos [OF k]
      by (auto simp: Suc uploads_before_Suc_None split: prod.splits option.splits if_splits)
  qed
  show ?case
    apply (rule exI [where x = "chunk # new"])
    apply (rule exI [where x = "added"])
    using h ids pos' by simp
qed


lemma refs_resolve_alt:
  "refs_resolve stored refs =
     (\<forall>i < length refs. snd (refs ! i) = None \<longrightarrow>
        length (filter (\<lambda>c. chunk_uid c = fst (refs ! i)) stored)
          + length (filter (\<lambda>r. fst r = fst (refs ! i)) (inline_refs (take i refs))) = 1)"
  by (auto simp: refs_resolve_def list_all_iff)

lemma refs_resolve_Nil: "refs_resolve stored []"
  by (simp add: refs_resolve_def)

lemma refs_resolve_Cons_Some:
  "chunk_uid c = u \<Longrightarrow>
   refs_resolve stored ((u, Some v) # rest) = refs_resolve (stored @ [c]) rest"
  by (auto simp: refs_resolve_alt All_less_Suc2 inline_refs_def)

lemma refs_resolve_Cons_None:
  "refs_resolve stored ((u, None) # rest)
     = (length (filter (\<lambda>c. chunk_uid c = u) stored) = 1 \<and> refs_resolve stored rest)"
  by (auto simp: refs_resolve_alt All_less_Suc2 inline_refs_def)

lemma objects_get_succeeds:
  "(\<exists>x. objects_get P rows = Inr x) \<longleftrightarrow> length (filter P rows) = 1"
  by (cases "filter P rows"; cases "tl (filter P rows)") (auto simp: objects_get_def)

lemma objects_get_none: "filter P rows = [] \<Longrightarrow> objects_get P rows = Inl DoesNotExist"
  by (simp add: objects_get_def)

lemma objects_get_many:
  "1 < length (filter P rows) \<Longrightarrow> objects_get P rows = Inl MultipleObjectsReturned"
  by (cases "filter P rows"; cases "tl (filter P rows)") (auto simp: objects_get_def)

lemma process_chunks_succeeds:
  "(\<exists>objs' s'. process_chunks item refs objs s = Inr (objs', s')) \<longleftrightarrow> refs_resolve (chunks s) refs"
proof (induction item refs objs s rule: process_chunks.induct)
  case (1 item chunks_objs s)
  show ?case by (simp add: refs_resolve_Nil)
next
  case (2 item uid content rest chunks_objs s)
  let ?chunk = "\<lparr>chunk_id = new_pk (map chunk_id (chunks s)), chunk_uid = uid,
            chunk_item = item_id item, chunk_chunkFile = content\<rparr>"
  have "refs_resolve (chunks s) ((uid, Some content) # rest) = refs_resolve (chunks s @ [?chunk]) rest"
    by (rule refs_resolve_Cons_Some) simp
  with 2 [OF refl] show ?case by (simp add: Let_def)
next
  case (3 item uid rest chunks_objs s)
  show ?case
  proof (cases "objects_get (\<lambda>c. chunk_uid c = uid) (chunks s)")
    case (Inl e)
    with objects_get_succeeds [of "\<lambda>c. chunk_uid c = uid" "chunks s"]
    have "length (filter (\<lambda>c. chunk_uid c = uid) (chunks s)) \<noteq> 1" by simp
    with Inl show ?thesis by (simp add: refs_resolve_Cons_None)
  next
    case (Inr chunk)
    with objects_get_succeeds [of "\<lambda>c. chunk_uid c = uid" "chunks s"]
    have "length (filter (\<lambda>c. chunk_uid c = uid) (chunks s)) = 1" by auto
    with Inr 3 [OF Inr] show ?thesis by (simp add: refs_resolve_Cons_None)
  qed
qed

lemma process_chunks_append:
  "process_chunks item (pre @ rest) objs s =
     (case process_chunks item pre objs s of
        Inl e \<Rightarrow> Inl e
      | Inr (objs1, s1) \<Rightarrow> process_chunks item rest objs1 s1)"
proof (induction item pre objs s rule: process_chunks.induct)
  case (1 item chunks_objs s)
  show ?case by simp
next
  case (2 item uid content rest' chunks_objs s)
  from 2 [OF refl] show ?case by (simp add: Let_def)
next
  case (3 item uid rest' chunks_objs s)
  show ?case
  proof (cases "objects_get (\<lambda>c. chunk_uid c = uid) (chunks s)")
    case (Inl e)
    then show ?thesis by simp
  next
    case (Inr chunk)
    with 3 [OF Inr] show ?thesis by simp
  qed
qed

lemma count_added:
  assumes "map as_ref added = inline_refs pre"
  shows "length (filter (\<lambda>c. chunk_uid c = uid) added)
       = length (filter (\<lambda>r. fst r = uid) (inline_refs pre))"
proof -
  have "filter (\<lambda>r. fst r = uid) (map as_ref added) = map as_ref (filter (\<lambda>c. chunk_uid c = uid) added)"
    by (simp add: filter_map comp_def as_ref_def)
  with assms show ?thesis by (metis length_map)
qed

lemma process_chunks_first_unresolved:
  assumes pre: "refs_resolve (chunks s) pre"
    and n: "length (filter (\<lambda>c. chunk_uid c = uid) (chunks s))
              + length (filter (\<lambda>r. fst r = uid) (inline_refs pre)) \<noteq> 1"
  shows "process_chunks item (pre @ (uid, None) # post) objs s
       = Inl (if length (filter (\<lambda>c. chunk_uid c = uid) (chunks s))
                   + length (filter (\<lambda>r. fst r = uid) (inline_refs pre)) = 0
              then DoesNotExist else MultipleObjectsReturned)"
proof -
  from pre obtain objs1 s1 where p: "process_chunks item pre objs s = Inr (objs1, s1)"
    using process_chunks_succeeds [of item pre objs s] by blast
  from process_chunks_Inr [OF p] obtain added where
    a: "s1 = s\<lparr>chunks := chunks s @ added\<rparr>" "map as_ref added = inline_refs pre"
    by blast
  let ?f = "filter (\<lambda>c. chunk_uid c = uid) (chunks s1)"
  have len: "length ?f = length (filter (\<lambda>c. chunk_uid c = uid) (chunks s))
              + length (filter (\<lambda>r. fst r = uid) (inline_refs pre))"
    by (simp add: a(1) count_added [OF a(2)])
  have "objects_get (\<lambda>c. chunk_uid c = uid) (chunks s1)
       = Inl (if length ?f = 0 then DoesNotExist else MultipleObjectsReturned)"
  proof (cases "length ?f = 0")
    case True
    then show ?thesis by (simp add: objects_get_none)
  next
    case False
    with n len have "1 < length ?f" by linarith
    from objects_get_many [OF this] False show ?thesis by simp
  qed
  then show ?thesis by (simp add: process_chunks_append p len)
qed

lemma process_chunks_unknown_prefix:
  assumes "uid \<notin> chunk_uid ` set (chunks s)" and "uid \<notin> fst ` set (inline_refs pre)"
  shows "\<exists>e. process_chunks item (pre @ (uid, None) # post) objs s = Inl e"
proof (cases "process_chunks item pre objs s")
  case (Inl e)
  then show ?thesis by (simp add: process_chunks_append)
next
  case (Inr p)
  obtain objs1 s1 where p: "p = (objs1, s1)" by (cases p)
  from process_chunks_Inr [OF Inr [unfolded p]] obtain added where
    a: "s1 = s\<lparr>chunks := chunks s @ added\<rparr>" "map as_ref added = inline_refs pre"
    by blast
  have "chunk_uid ` set added = fst ` set (map as_ref added)"
    by (auto simp: as_ref_def image_iff)
  with assms(2) a(2) have "uid \<notin> chunk_uid ` set added" by simp
  with assms(1) have "filter (\<lambda>c. chunk_uid c = uid) (chunks s1) = []"
    by (auto simp: a(1) filter_empty_conv)
  then show ?thesis
    by (simp add: process_chunks_append Inr p objects_get_none)
qed

lemma process_revisions_for_item_order:
  assumes "process_revisions_for_item item rd s = Inr (revision, s')"
  shows "\<exists>chunks_objs added links.
           s' = s\<lparr>chunks := chunks s @ added, stokens := stokens s @ [new_pk (stokens s)],
                  revisions := revisions s @ [revision], relations := relations s @ links\<rparr>
         \<and> revision = \<lparr>rev_id = new_pk (map rev_id (revisions s)), rev_stoken = new_pk (stokens s),
             rev_uid = rd_uid rd, rev_item = item_id item, rev_meta = rd_meta rd,
             rev_current = Some True, rev_deleted = rd_deleted rd\<rparr>
         \<and> map as_ref added = inline_refs (rd_chunks_relation rd)
         \<and> set chunks_objs \<subseteq> set (chunks s @ added)
         \<and> map chunk_uid chunks_objs = map fst (rd_chunks_relation rd)
         \<and> map rel_chunk links = map chunk_id chunks_objs
         \<and> (\<forall>l \<in> set links. rel_revision l = rev_id revision)
         \<and> length chunks_objs = length (rd_chunks_relation rd)
         \<and> (\<forall>j < length added.
               chunk_id (added ! j) = new_pk (map chunk_id (chunks s @ take j added))
             \<and> chunk_item (added ! j) = item_id item)
         \<and> (\<forall>i < length (rd_chunks_relation rd).
               (case rd_chunks_relation rd ! i of
                  (uid, Some content) \<Rightarrow>
                    uploads_before (rd_chunks_relation rd) i < length added
                    \<and> chunks_objs ! i = added ! uploads_before (rd_chunks_relation rd) i
                    \<and> as_ref (chunks_objs ! i) = rd_chunks_relation rd ! i
                | (uid, None) \<Rightarrow>
                    filter (\<lambda>c. chunk_uid c = uid)
                      (chunks s @ take (uploads_before (rd_chunks_relation rd) i) added)
                      = [chunks_objs ! i]))"
proof -
  let ?refs = "rd_chunks_relation rd"
  from assms obtain chunks_objs s1 where
    pc: "process_chunks item ?refs [] s = Inr (chunks_objs, s1)"
    by (auto simp: process_revisions_for_item_def split: sum.splits)
  from process_chunks_Inr [OF pc] obtain added where
    a: "map chunk_uid chunks_objs = map fst ?refs"
       "set chunks_objs \<subseteq> set (chunks s1)" "s1 = s\<lparr>chunks := chunks s @ added\<rparr>"
       "map as_ref added = inline_refs ?refs"
    by auto
  from process_chunks_order [OF pc] obtain new added' where
    o: "chunks_objs = [] @ new" "chunks s1 = chunks s @ added'" "length new = length ?refs"
       "\<forall>j < length added'.
             chunk_id (added' ! j) = new_pk (map chunk_id (chunks s @ take j added'))
           \<and> chunk_item (added' ! j) = item_id item"
       "\<forall>i < length ?refs.
             (case ?refs ! i of
                (uid, Some content) \<Rightarrow>
                  uploads_before ?refs i < length added' \<and> new ! i = added' ! uploads_before ?refs i
                  \<and> as_ref (new ! i) = ?refs ! i
              | (uid, None) \<Rightarrow>
                  filter (\<lambda>c. chunk_uid c = uid) (chunks s @ take (uploads_before ?refs i) added')
                    = [new ! i])"
    by blast
  from o(2) a(3) have same: "added' = added" by simp
  from o(1) have new: "new = chunks_objs" by simp
  let ?t = "new_pk (stokens s)"
  let ?s2 = "s1\<lparr>stokens := stokens s @ [?t]\<rparr>"
  let ?r = "\<lparr>rev_id = new_pk (map rev_id (revisions s)), rev_stoken = ?t,
             rev_uid = rd_uid rd, rev_item = item_id item, rev_meta = rd_meta rd,
             rev_current = Some True, rev_deleted = rd_deleted rd\<rparr>"
  let ?s3 = "?s2\<lparr>revisions := revisions s @ [?r]\<rparr>"
  from assms pc a(3) have r: "revision = ?r"
    and f: "s' = fold (\<lambda>chunk. RevisionChunkRelation_create chunk revision) chunks_objs ?s3"
    by (auto simp: process_revisions_for_item_def Stoken_create_def Let_def
          CollectionItemRevision_create_def split: if_splits)
  from fold_RevisionChunkRelation_create [of revision chunks_objs ?s3] f obtain links where
    l: "s' = ?s3\<lparr>relations := relations ?s3 @ links\<rparr>" "map rel_chunk links = map chunk_id chunks_objs"
       "\<forall>l \<in> set links. rel_revision l = rev_id revision"
    by auto
  have s': "s' = s\<lparr>chunks := chunks s @ added, stokens := stokens s @ [new_pk (stokens s)],
                  revisions := revisions s @ [revision], relations := relations s @ links\<rparr>"
    using l(1) a(3) r by simp
  have sub: "set chunks_objs \<subseteq> set (chunks s @ added)"
    using a(2) by (simp add: a(3))
  show ?thesis
    apply (rule exI [where x = chunks_objs])
    apply (rule exI [where x = added])
    apply (rule exI [where x = links])
    apply (intro conjI)
    apply (rule s')
    apply (rule r)
    apply (rule a(4))
    apply (rule sub)
    apply (rule a(1))
    apply (rule l(2))
    apply (rule l(3))
    apply (rule o(3) [unfolded new])
    apply (rule o(4) [unfolded same])
    apply (rule o(5) [unfolded same new])
    done
qed

lemma process_revisions_for_item_succeeds:
  "(\<exists>revision s'. process_revisions_for_item item rd s = Inr (revision, s'))
     \<longleftrightarrow> refs_resolve (chunks s) (rd_chunks_relation rd)
         \<and> list_all (\<lambda>r. \<not> is_current_of (item_id item) r) (revisions s)"
proof (cases "process_chunks item (rd_chunks_relation rd) [] s")
  case (Inl e)
  with process_chunks_succeeds [of item "rd_chunks_relation rd" "[]" s]
  have "\<not> refs_resolve (chunks s) (rd_chunks_relation rd)" by simp
  with Inl show ?thesis by (simp add: process_revisions_for_item_def)
next
  case (Inr p)
  obtain objs s1 where p: "p = (objs, s1)" by (cases p)
  from process_chunks_succeeds [of item "rd_chunks_relation rd" "[]" s] Inr p
  have res: "refs_resolve (chunks s) (rd_chunks_relation rd)" by simp
  from process_chunks_Inr [OF Inr [unfolded p]] obtain added where
    s1: "s1 = s\<lparr>chunks := chunks s @ added\<rparr>" by blast
  show ?thesis
    using res
    by (auto simp: process_revisions_for_item_def Inr p s1 Stoken_create_def Let_def
          CollectionItemRevision_create_def is_current_of_def list_all_iff)
qed

lemma process_revisions_for_item_chunks_error:
  "process_chunks item (rd_chunks_relation rd) [] s = Inl e
   \<Longrightarrow> process_revisions_for_item item rd s = Inl e"
  by (simp add: process_revisions_for_item_def)

text \<open>
  C5. A successful \<open>process_revisions_for_item\<close> handles the references one by one in
  the order given. The references that carry content are stored, in their order, as new
  chunk rows of the item, each with a key above those of the rows before it. The chunk
  of the reference at position \<open>i\<close> is, for a reference with content, the row stored for
  that very reference, and for a reference without content, the one row with its uid
  among the chunks stored before the call and the uploads of the request that come
  before position \<open>i\<close>. The call allocates one stoken above all earlier ones; appends
  one revision, current, of the item, with that stoken; links it to those chunks in the
  order of the references; and changes no other revision and no other table. The call
  succeeds exactly when every reference without content resolves in this way and the
  item has no current revision: it demotes none. A reference without content whose uid
  no stored chunk and no upload before it has makes the call fail, with
  \<open>DoesNotExist\<close> when the references before it resolve; one whose uid several such
  chunks have makes it fail with \<open>MultipleObjectsReturned\<close>.
\<close>

theorem process_revisions_for_item_creates:
  "(process_revisions_for_item item rd s = Inr (revision, s') \<longrightarrow>
      (\<exists>chunks_objs added links.
         chunks s' = chunks s @ added
       \<and> map as_ref added = inline_refs (rd_chunks_relation rd)
       \<and> (\<forall>j < length added.
             chunk_id (added ! j) = new_pk (map chunk_id (chunks s @ take j added))
           \<and> chunk_item (added ! j) = item_id item)
       \<and> set chunks_objs \<subseteq> set (chunks s')
       \<and> map chunk_uid chunks_objs = map fst (rd_chunks_relation rd)
       \<and> length chunks_objs = length (rd_chunks_relation rd)
       \<and> (\<forall>i < length (rd_chunks_relation rd).
             (case rd_chunks_relation rd ! i of
                (uid, Some content) \<Rightarrow>
                  uploads_before (rd_chunks_relation rd) i < length added
                  \<and> chunks_objs ! i = added ! uploads_before (rd_chunks_relation rd) i
                  \<and> as_ref (chunks_objs ! i) = rd_chunks_relation rd ! i
              | (uid, None) \<Rightarrow>
                  filter (\<lambda>c. chunk_uid c = uid)
                    (chunks s @ take (uploads_before (rd_chunks_relation rd) i) added)
                    = [chunks_objs ! i]))
       \<and> stokens s' = stokens s @ [rev_stoken revision]
       \<and> (\<forall>t \<in> set (stokens s). t < rev_stoken revision)
       \<and> revisions s' = revisions s @ [revision]
       \<and> revision = \<lparr>rev_id = new_pk (map rev_id (revisions s)), rev_stoken = new_pk (stokens s),
             rev_uid = rd_uid rd, rev_item = item_id item, rev_meta = rd_meta rd,
             rev_current = Some True, rev_deleted = rd_deleted rd\<rparr>
       \<and> relations s' = relations s @ links
       \<and> map rel_chunk links = map chunk_id chunks_objs
       \<and> (\<forall>l \<in> set links. rel_revision l = rev_id revision)
       \<and> items s' = items s \<and> collections s' = collections s
       \<and> members s' = members s \<and> invitations s' = invitations s))
   \<and> ((\<exists>revision s'. process_revisions_for_item item rd s = Inr (revision, s'))
        \<longleftrightarrow> refs_resolve (chunks s) (rd_chunks_relation rd)
            \<and> list_all (\<lambda>r. \<not> is_current_of (item_id item) r) (revisions s))
   \<and> (rd_chunks_relation rd = pre @ (uid, None) # post
        \<and> uid \<notin> chunk_uid ` set (chunks s) \<and> uid \<notin> fst ` set (inline_refs pre)
      \<longrightarrow> (\<exists>e. process_revisions_for_item item rd s = Inl e)
          \<and> (refs_resolve (chunks s) pre
               \<longrightarrow> process_revisions_for_item item rd s = Inl DoesNotExist))
   \<and> (rd_chunks_relation rd = pre @ (uid, None) # post \<and> refs_resolve (chunks s) pre
        \<and> 1 < length (filter (\<lambda>c. chunk_uid c = uid) (chunks s))
                + length (filter (\<lambda>r. fst r = uid) (inline_refs pre))
      \<longrightarrow> process_revisions_for_item item rd s = Inl MultipleObjectsReturned)"
proof -
  let ?refs = "rd_chunks_relation rd"
  have created: "\<exists>chunks_objs added links.
         chunks s' = chunks s @ added
       \<and> map as_ref added = inline_refs ?refs
       \<and> (\<forall>j < length added.
             chunk_id (added ! j) = new_pk (map chunk_id (chunks s @ take j added))
           \<and> chunk_item (added ! j) = item_id item)
       \<and> set chunks_objs \<subseteq> set (chunks s')
       \<and> map chunk_uid chunks_objs = map fst ?refs
       \<and> length chunks_objs = length ?refs
       \<and> (\<forall>i < length ?refs.
             (case ?refs ! i of
                (uid, Some content) \<Rightarrow>
                  uploads_before ?refs i < length added
                  \<and> chunks_objs ! i = added ! uploads_before ?refs i
                  \<and> as_ref (chunks_objs ! i) = ?refs ! i
              | (uid, None) \<Rightarrow>
                  filter (\<lambda>c. chunk_uid c = uid)
                    (chunks s @ take (uploads_before ?refs i) added)
                    = [chunks_objs ! i]))
       \<and> stokens s' = stokens s @ [rev_stoken revision]
       \<and> (\<forall>t \<in> set (stokens s). t < rev_stoken revision)
       \<and> revisions s' = revisions s @ [revision]
       \<and> revision = \<lparr>rev_id = new_pk (map rev_id (revisions s)), rev_stoken = new_pk (stokens s),
             rev_uid = rd_uid rd, rev_item = item_id item, rev_meta = rd_meta rd,
             rev_current = Some True, rev_deleted = rd_deleted rd\<rparr>
       \<and> relations s' = relations s @ links
       \<and> map rel_chunk links = map chunk_id chunks_objs
       \<and> (\<forall>l \<in> set links. rel_revision l = rev_id revision)
       \<and> items s' = items s \<and> collections s' = collections s
       \<and> members s' = members s \<and> invitations s' = invitations s"
    if ok: "process_revisions_for_item item rd s = Inr (revision, s')"
  proof -
    from process_revisions_for_item_order [OF ok] obtain chunks_objs added links where
      h: "s' = s\<lparr>chunks := chunks s @ added, stokens := stokens s @ [new_pk (stokens s)],
                  revisions := revisions s @ [revision], relations := relations s @ links\<rparr>"
         "revision = \<lparr>rev_id = new_pk (map rev_id (revisions s)), rev_stoken = new_pk (stokens s),
             rev_uid = rd_uid rd, rev_item = item_id item, rev_meta = rd_meta rd,
             rev_current = Some True, rev_deleted = rd_deleted rd\<rparr>"
         "map as_ref added = inline_refs ?refs"
         "set chunks_objs \<subseteq> set (chunks s @ added)"
         "map chunk_uid chunks_objs = map fst ?refs"
         "map rel_chunk links = map chunk_id chunks_objs"
         "\<forall>l \<in> set links. rel_revision l = rev_id revision"
         "length chunks_objs = length ?refs"
      and ids: "\<forall>j < length added.
               chunk_id (added ! j) = new_pk (map chunk_id (chunks s @ take j added))
             \<and> chunk_item (added ! j) = item_id item"
      and pos: "\<forall>i < length ?refs.
               (case ?refs ! i of
                  (uid, Some content) \<Rightarrow>
                    uploads_before ?refs i < length added
                    \<and> chunks_objs ! i = added ! uploads_before ?refs i
                    \<and> as_ref (chunks_objs ! i) = ?refs ! i
                | (uid, None) \<Rightarrow>
                    filter (\<lambda>c. chunk_uid c = uid)
                      (chunks s @ take (uploads_before ?refs i) added)
                      = [chunks_objs ! i])"
      by blast
    have t: "rev_stoken revision = new_pk (stokens s)"
      by (subst h(2)) simp
    have fresh: "\<forall>t \<in> set (stokens s). t < rev_stoken revision"
      by (simp add: t new_pk_fresh)
    have frame: "chunks s' = chunks s @ added" "stokens s' = stokens s @ [rev_stoken revision]"
      "revisions s' = revisions s @ [revision]" "relations s' = relations s @ links"
      "items s' = items s" "collections s' = collections s"
      "members s' = members s" "invitations s' = invitations s"
      by (simp_all add: h(1) t)
    have sub: "set chunks_objs \<subseteq> set (chunks s')"
      using h(4) by (simp only: frame(1))
    show ?thesis
      apply (rule exI [where x = chunks_objs])
      apply (rule exI [where x = added])
      apply (rule exI [where x = links])
      apply (intro conjI)
      apply (rule frame(1))
      apply (rule h(3))
      apply (rule ids)
      apply (rule sub)
      apply (rule h(5))
      apply (rule h(8))
      apply (rule pos)
      apply (rule frame(2))
      apply (rule fresh)
      apply (rule frame(3))
      apply (rule h(2))
      apply (rule frame(4))
      apply (rule h(6))
      apply (rule h(7))
      apply (rule frame(5))
      apply (rule frame(6))
      apply (rule frame(7))
      apply (rule frame(8))
      done
  qed
  have unknown: "(\<exists>e. process_revisions_for_item item rd s = Inl e)
          \<and> (refs_resolve (chunks s) pre
               \<longrightarrow> process_revisions_for_item item rd s = Inl DoesNotExist)"
    if u: "?refs = pre @ (uid, None) # post
        \<and> uid \<notin> chunk_uid ` set (chunks s) \<and> uid \<notin> fst ` set (inline_refs pre)"
  proof
    from u process_chunks_unknown_prefix [of uid s pre item post "[]"]
    obtain e where "process_chunks item ?refs [] s = Inl e" by auto
    from process_revisions_for_item_chunks_error [OF this]
    show "\<exists>e. process_revisions_for_item item rd s = Inl e" ..
  next
    show "refs_resolve (chunks s) pre \<longrightarrow> process_revisions_for_item item rd s = Inl DoesNotExist"
    proof
      assume r: "refs_resolve (chunks s) pre"
      from u have z: "filter (\<lambda>c. chunk_uid c = uid) (chunks s) = []"
        "filter (\<lambda>r. fst r = uid) (inline_refs pre) = []"
        by (auto simp: filter_empty_conv)
      then have n: "length (filter (\<lambda>c. chunk_uid c = uid) (chunks s))
              + length (filter (\<lambda>r. fst r = uid) (inline_refs pre)) \<noteq> 1"
        by simp
      from process_chunks_first_unresolved [OF r n, of item post "[]"] u z
      have "process_chunks item ?refs [] s = Inl DoesNotExist" by simp
      then show "process_revisions_for_item item rd s = Inl DoesNotExist"
        by (rule process_revisions_for_item_chunks_error)
    qed
  qed
  have many: "process_revisions_for_item item rd s = Inl MultipleObjectsReturned"
    if m: "?refs = pre @ (uid, None) # post \<and> refs_resolve (chunks s) pre
        \<and> 1 < length (filter (\<lambda>c. chunk_uid c = uid) (chunks s))
                + length (filter (\<lambda>r. fst r = uid) (inline_refs pre))"
  proof -
    let ?n = "length (filter (\<lambda>c. chunk_uid c = uid) (chunks s))
              + length (filter (\<lambda>r. fst r = uid) (inline_refs pre))"
    from m have r: "refs_resolve (chunks s) pre" and refs: "?refs = pre @ (uid, None) # post"
      and gt: "1 < ?n"
      by blast+
    from gt have n: "?n \<noteq> 1" and z: "?n \<noteq> 0" by linarith+
    have e: "(if ?n = 0 then DoesNotExist else MultipleObjectsReturned) = MultipleObjectsReturned"
      by (simp only: z if_False)
    have "process_chunks item (pre @ (uid, None) # post) [] s = Inl MultipleObjectsReturned"
      using process_chunks_first_unresolved [OF r n, of item post "[]"] by (simp only: e)
    then have "process_chunks item ?refs [] s = Inl MultipleObjectsReturned"
      by (simp only: refs)
    then show ?thesis by (rule process_revisions_for_item_chunks_error)
  qed
  from created unknown many process_revisions_for_item_succeeds [of item rd s]
  show ?thesis by blast
qed


theorem process_revisions_for_item_creates_witness:
  "process_revisions_for_item ex_item_b ex_rd_reupload ex_db_b = Inr (ex_rev_b, ex_db_b_rev)
   \<and> chunks ex_db_b_rev = chunks ex_db_b
         @ [\<lparr>chunk_id = 3, chunk_uid = ''c1'', chunk_item = 2, chunk_chunkFile = [5]\<rparr>]
   \<and> map rel_chunk (drop (length (relations ex_db_b)) (relations ex_db_b_rev)) = [2, 3]
   \<and> revisions ex_db_b_rev = revisions ex_db_b @ [ex_rev_b]
   \<and> rev_current ex_rev_b = Some True
   \<and> stokens ex_db_b_rev = stokens ex_db_b @ [rev_stoken ex_rev_b]
   \<and> refs_resolve (chunks ex_db_b) (rd_chunks_relation ex_rd_reupload)
   \<and> list_all (\<lambda>r. \<not> is_current_of (item_id ex_item_b) r) (revisions ex_db_b)
   \<and> rd_chunks_relation ex_rd_early = [] @ (''c9'', None) # [(''c9'', Some [1])]
   \<and> ''c9'' \<notin> chunk_uid ` set (chunks ex_db)
   \<and> ''c9'' \<notin> fst ` set (inline_refs [])
   \<and> refs_resolve (chunks ex_db) []
   \<and> process_revisions_for_item ex_item ex_rd_early ex_db = Inl DoesNotExist
   \<and> rd_chunks_relation ex_rd_twice = [(''c1'', Some [5])] @ (''c1'', None) # []
   \<and> refs_resolve (chunks ex_db_b) [(''c1'', Some [5])]
   \<and> 1 < length (filter (\<lambda>c. chunk_uid c = ''c1'') (chunks ex_db_b))
            + length (filter (\<lambda>r. fst r = ''c1'') (inline_refs [(''c1'', Some [5])]))
   \<and> process_revisions_for_item ex_item_b ex_rd_twice ex_db_b = Inl MultipleObjectsReturned"
proof -
  have ok: "process_revisions_for_item ex_item_b ex_rd_reupload ex_db_b = Inr (ex_rev_b, ex_db_b_rev)"
    by code_simp
  have rows: "chunks ex_db_b_rev = chunks ex_db_b
         @ [\<lparr>chunk_id = 3, chunk_uid = ''c1'', chunk_item = 2, chunk_chunkFile = [5]\<rparr>]"
    "map rel_chunk (drop (length (relations ex_db_b)) (relations ex_db_b_rev)) = [2, 3]"
    by code_simp+
  note created = process_revisions_for_item_creates
    [where item = ex_item_b and rd = ex_rd_reupload and s = ex_db_b and revision = ex_rev_b
       and s' = ex_db_b_rev]
  from created ok obtain chunks_objs added links where
    r: "revisions ex_db_b_rev = revisions ex_db_b @ [ex_rev_b]"
       "stokens ex_db_b_rev = stokens ex_db_b @ [rev_stoken ex_rev_b]"
    and e: "ex_rev_b = \<lparr>rev_id = new_pk (map rev_id (revisions ex_db_b)),
             rev_stoken = new_pk (stokens ex_db_b), rev_uid = rd_uid ex_rd_reupload,
             rev_item = item_id ex_item_b, rev_meta = rd_meta ex_rd_reupload,
             rev_current = Some True, rev_deleted = rd_deleted ex_rd_reupload\<rparr>"
    by blast
  have cur: "rev_current ex_rev_b = Some True"
    by (subst e) simp
  from created ok
  have res: "refs_resolve (chunks ex_db_b) (rd_chunks_relation ex_rd_reupload)
      \<and> list_all (\<lambda>r. \<not> is_current_of (item_id ex_item_b) r) (revisions ex_db_b)"
    by blast
  have early: "rd_chunks_relation ex_rd_early = [] @ (''c9'', None) # [(''c9'', Some [1])]"
    "''c9'' \<notin> chunk_uid ` set (chunks ex_db)" "''c9'' \<notin> fst ` set (inline_refs [])"
    "refs_resolve (chunks ex_db) []"
    by (simp_all add: ex_rd_early_def ex_db_def empty_db_def inline_refs_def refs_resolve_def)
  from process_revisions_for_item_creates
    [where item = ex_item and rd = ex_rd_early and s = ex_db and pre = "[]" and uid = "''c9''"
       and post = "[(''c9'', Some [1])]"] early
  have unknown: "process_revisions_for_item ex_item ex_rd_early ex_db = Inl DoesNotExist"
    by blast
  have twice: "rd_chunks_relation ex_rd_twice = [(''c1'', Some [5])] @ (''c1'', None) # []"
    "refs_resolve (chunks ex_db_b) [(''c1'', Some [5])]"
    "1 < length (filter (\<lambda>c. chunk_uid c = ''c1'') (chunks ex_db_b))
            + length (filter (\<lambda>r. fst r = ''c1'') (inline_refs [(''c1'', Some [5])]))"
    by code_simp+
  from process_revisions_for_item_creates
    [where item = ex_item_b and rd = ex_rd_twice and s = ex_db_b and pre = "[(''c1'', Some [5])]"
       and uid = "''c1''" and post = "[]"] twice
  have many: "process_revisions_for_item ex_item_b ex_rd_twice ex_db_b = Inl MultipleObjectsReturned"
    by blast
  from ok rows r cur res early unknown twice many show ?thesis by simp
qed

subsection \<open>Looking an item up and demoting its current revision\<close>

lemma demote_current_revision_Inr:
  assumes "demote_current_revision item s = Inr s'"
  shows "\<exists>old. objects_first (is_current_of (item_id item)) (revisions s) = Some old
           \<and> s' = s\<lparr>revisions := map (\<lambda>r. if rev_id r = rev_id old then old\<lparr>rev_current := None\<rparr> else r)
                                     (revisions s)\<rparr>"
  using assms
  by (auto simp: demote_current_revision_def CollectionItemRevision_save_def split: option.splits)

lemma objects_first_Some:
  "objects_first P rows = Some x \<Longrightarrow> x \<in> set rows \<and> P x"
  unfolding objects_first_def
  by (auto split: list.splits dest!: arg_cong [where f = set])

lemma get_or_create_existing:
  assumes "Some uid \<in> item_uid ` set (items s)"
      and "CollectionItem_get_or_create uid defaults s = Inr (instance, created, s1)"
  shows "\<not> created \<and> s1 = s \<and> instance \<in> set (items s) \<and> item_uid instance = Some uid"
proof -
  from assms(1) have "filter (\<lambda>i. item_uid i = Some uid) (items s) \<noteq> []"
    by (auto simp: filter_empty_conv)
  with assms(2) have f: "filter (\<lambda>i. item_uid i = Some uid) (items s) = [instance]"
    and c: "\<not> created" "s1 = s"
    by (auto simp: CollectionItem_get_or_create_def split: list.splits)
  from arg_cong [OF f, of set] have "instance \<in> set (items s) \<and> item_uid instance = Some uid"
    by auto
  with c show ?thesis by simp
qed

subsection \<open>The invariant of the revision tables\<close>

lemma filter_current_append:
  "rev_current new = Some True \<Longrightarrow>
   filter (is_current_of i) (revs @ [new])
     = (if rev_item new = i then filter (is_current_of i) revs @ [new] else filter (is_current_of i) revs)"
  by (simp add: is_current_of_def)

lemma map_by_key:
  assumes "distinct (map rev_id revs)" and "old \<in> set revs"
  shows "map (\<lambda>r. if rev_id r = rev_id old then old' else r) revs
       = map (\<lambda>r. if r = old then old' else r) revs"
proof (rule map_cong [OF refl])
  fix r assume "r \<in> set revs"
  with assms have "rev_id r = rev_id old \<longleftrightarrow> r = old"
    by (auto simp: distinct_map dest: inj_onD)
  then show "(if rev_id r = rev_id old then old' else r) = (if r = old then old' else r)"
    by simp
qed

lemma filter_map_replace:
  "\<not> P old' \<Longrightarrow> filter P (map (\<lambda>r. if r = old then old' else r) revs) = filter (\<lambda>r. P r \<and> r \<noteq> old) revs"
  by (induction revs) auto

lemma filter_singleton_remove:
  assumes "filter P revs = [old]"
  shows "filter (\<lambda>r. P r \<and> r \<noteq> old) revs = []"
proof -
  have "filter (\<lambda>r. P r \<and> r \<noteq> old) revs = filter (\<lambda>r. r \<noteq> old) (filter P revs)"
    by (simp add: conj_commute)
  with assms show ?thesis by simp
qed

lemma filter_other_item:
  "rev_item old \<noteq> i \<Longrightarrow> filter (\<lambda>r. is_current_of i r \<and> r \<noteq> old) revs = filter (is_current_of i) revs"
  by (rule filter_cong [OF refl]) (auto simp: is_current_of_def)

lemma objects_first_single:
  assumes "objects_first P rows = Some x" and "length (filter P rows) = 1"
  shows "filter P rows = [x]"
  using assms by (cases "filter P rows") (auto simp: objects_first_def)

lemma db_invariantD:
  assumes "db_invariant s"
  shows "distinct (map rev_id (revisions s))"
    and "\<And>r. r \<in> set (revisions s) \<Longrightarrow> rev_item r \<in> item_id ` set (items s)"
    and "\<And>i. i \<in> set (items s) \<Longrightarrow> length (filter (is_current_of (item_id i)) (revisions s)) = 1"
  using assms by (auto simp: db_invariant_def list_all_iff current_revisions_def)

lemma db_invariantI:
  assumes "distinct (map rev_id (revisions s))"
    and "\<And>r. r \<in> set (revisions s) \<Longrightarrow> rev_item r \<in> item_id ` set (items s)"
    and "\<And>i. i \<in> set (items s) \<Longrightarrow> length (filter (is_current_of (item_id i)) (revisions s)) = 1"
  shows "db_invariant s"
  using assms by (auto simp: db_invariant_def list_all_iff current_revisions_def)

lemma db_invariant_cong:
  "items s' = items s \<Longrightarrow> revisions s' = revisions s \<Longrightarrow> db_invariant s' = db_invariant s"
  by (simp add: db_invariant_def current_revisions_def)

text \<open>A revision appended for an item that has no current revision.\<close>

lemma db_invariant_new_revision:
  assumes inv: "distinct (map rev_id revs)"
      "\<And>r. r \<in> set revs \<Longrightarrow> rev_item r \<in> item_id ` set its"
      "\<And>i. i \<in> set its \<Longrightarrow> item_id i \<noteq> rev_item new \<Longrightarrow> length (filter (is_current_of (item_id i)) revs) = 1"
    and none: "filter (is_current_of (rev_item new)) revs = []"
    and new: "rev_id new = new_pk (map rev_id revs)" "rev_current new = Some True"
      "rev_item new \<in> item_id ` set its"
    and s': "revisions s' = revs @ [new]" "items s' = its"
  shows "db_invariant s'"
proof (rule db_invariantI)
  show "distinct (map rev_id (revisions s'))"
    using inv(1) new(1) new_pk_notin [of "map rev_id revs"] by (simp add: s')
next
  fix r assume "r \<in> set (revisions s')"
  then show "rev_item r \<in> item_id ` set (items s')"
    using inv(2) new(3) by (auto simp: s')
next
  fix i assume i: "i \<in> set (items s')"
  show "length (filter (is_current_of (item_id i)) (revisions s')) = 1"
  proof (cases "item_id i = rev_item new")
    case True
    then show ?thesis using none by (simp add: s' filter_current_append [OF new(2)] del: filter_append)
  next
    case False
    then show ?thesis using inv(3) [of i] i by (simp add: s' filter_current_append [OF new(2)] del: filter_append)
  qed
qed

lemma atomic_Inr: "atomic body s = (Inr v, s') \<longleftrightarrow> body s = Inr (v, s')"
  by (auto simp: atomic_def split: sum.splits)

lemma atomic_Inl: "atomic body s = (Inl e, s') \<longleftrightarrow> body s = Inl e \<and> s' = s"
  by (auto simp: atomic_def split: sum.splits)

lemma atomic_cases:
  obtains (failed) e where "body s = Inl e" "atomic body s = (Inl e, s)"
        | (committed) v s' where "body s = Inr (v, s')" "atomic body s = (Inr v, s')"
  by (cases "body s") (auto simp: atomic_def)

lemma revision_of_new_item:
  assumes "db_invariant s" and fresh: "item_id item \<notin> item_id ` set (items s)"
    and s1: "items s1 = items s @ [item]" "revisions s1 = revisions s"
    and ok: "process_revisions_for_item item rd s1 = Inr (revision, s')"
  shows "db_invariant s'"
proof -
  note inv = db_invariantD [OF assms(1)]
  from process_revisions_for_item_Inr [OF ok] obtain chunks_objs added links where
    h: "s' = s1\<lparr>chunks := chunks s1 @ added, stokens := stokens s1 @ [new_pk (stokens s1)],
                  revisions := revisions s1 @ [revision], relations := relations s1 @ links\<rparr>"
       "revision = \<lparr>rev_id = new_pk (map rev_id (revisions s1)), rev_stoken = new_pk (stokens s1),
             rev_uid = rd_uid rd, rev_item = item_id item, rev_meta = rd_meta rd,
             rev_current = Some True, rev_deleted = rd_deleted rd\<rparr>"
    by blast
  have r: "rev_id revision = new_pk (map rev_id (revisions s))" "rev_current revision = Some True"
    "rev_item revision = item_id item"
    by (subst h(2), simp add: s1)+
  have none: "filter (is_current_of (rev_item revision)) (revisions s) = []"
  proof -
    have "\<not> is_current_of (item_id item) x" if "x \<in> set (revisions s)" for x
      using inv(2) [OF that] fresh by (auto simp: is_current_of_def)
    then show ?thesis by (simp add: filter_empty_conv r(3))
  qed
  show ?thesis
  proof (rule db_invariant_new_revision [where revs = "revisions s" and its = "items s @ [item]" and new = revision])
    show "distinct (map rev_id (revisions s))" by (rule inv(1))
    show "rev_item r \<in> item_id ` set (items s @ [item])" if "r \<in> set (revisions s)" for r
      using inv(2) [OF that] by auto
    show "length (filter (is_current_of (item_id i)) (revisions s)) = 1"
      if "i \<in> set (items s @ [item])" "item_id i \<noteq> rev_item revision" for i
      using that inv(3) [of i] by (auto simp: r(3))
    show "filter (is_current_of (rev_item revision)) (revisions s) = []" by (rule none)
    show "rev_id revision = new_pk (map rev_id (revisions s))" by (rule r(1))
    show "rev_current revision = Some True" by (rule r(2))
    show "rev_item revision \<in> item_id ` set (items s @ [item])" by (simp add: r(3))
    show "revisions s' = revisions s @ [revision]" by (simp add: h(1) s1)
    show "items s' = items s @ [item]" by (simp add: h(1) s1)
  qed
qed

lemma revision_of_existing_item:
  assumes "db_invariant s" and item: "item \<in> set (items s)"
    and demote: "demote_current_revision item s = Inr s1"
    and ok: "process_revisions_for_item item rd s1 = Inr (revision, s')"
  shows "db_invariant s' \<and> supersedes s s' (item_id item) \<and> items s' = items s
     \<and> collections s' = collections s \<and> members s' = members s \<and> invitations s' = invitations s"
proof -
  note inv = db_invariantD [OF assms(1)]
  let ?P = "is_current_of (item_id item)"
  from demote_current_revision_Inr [OF demote] obtain old where
    old: "objects_first ?P (revisions s) = Some old"
    and s1: "s1 = s\<lparr>revisions := map (\<lambda>r. if rev_id r = rev_id old then old\<lparr>rev_current := None\<rparr> else r)
                                     (revisions s)\<rparr>"
    by blast
  let ?old' = "old\<lparr>rev_current := None\<rparr>"
  let ?g = "\<lambda>r. if r = old then ?old' else r"
  from objects_first_Some [OF old] have mem: "old \<in> set (revisions s)" and cur: "?P old"
    by auto
  have single: "filter ?P (revisions s) = [old]"
    by (rule objects_first_single [OF old inv(3) [OF item]])
  have revs1: "revisions s1 = map ?g (revisions s)"
    by (simp add: s1 map_by_key [OF inv(1) mem])
  have its1: "items s1 = items s" by (simp add: s1)
  have notcur: "\<not> is_current_of i ?old'" for i by (simp add: is_current_of_def)
  have ids: "map rev_id (map ?g (revisions s)) = map rev_id (revisions s)"
    by (rule map_idI [THEN trans [rotated]]) (auto simp: comp_def)
  from process_revisions_for_item_Inr [OF ok] obtain chunks_objs added links where
    h: "s' = s1\<lparr>chunks := chunks s1 @ added, stokens := stokens s1 @ [new_pk (stokens s1)],
                  revisions := revisions s1 @ [revision], relations := relations s1 @ links\<rparr>"
       "revision = \<lparr>rev_id = new_pk (map rev_id (revisions s1)), rev_stoken = new_pk (stokens s1),
             rev_uid = rd_uid rd, rev_item = item_id item, rev_meta = rd_meta rd,
             rev_current = Some True, rev_deleted = rd_deleted rd\<rparr>"
    by blast
  have r: "rev_id revision = new_pk (map rev_id (revisions s))" "rev_current revision = Some True"
    "rev_item revision = item_id item"
    by (subst h(2), simp add: revs1 ids del: map_map)+
  have repl: "filter (is_current_of i) (map ?g (revisions s))
      = filter (\<lambda>r. is_current_of i r \<and> r \<noteq> old) (revisions s)" for i
    by (rule filter_map_replace) (rule notcur)
  have none: "filter ?P (map ?g (revisions s)) = []"
    by (simp only: repl filter_singleton_remove [OF single])
  have other: "filter (is_current_of i) (map ?g (revisions s)) = filter (is_current_of i) (revisions s)"
    if "i \<noteq> item_id item" for i
  proof -
    from cur that have "rev_item old \<noteq> i" by (auto simp: is_current_of_def)
    from filter_other_item [OF this] show ?thesis by (simp only: repl)
  qed
  have inv': "db_invariant s'"
  proof (rule db_invariant_new_revision [where revs = "map ?g (revisions s)" and its = "items s" and new = revision])
    show "distinct (map rev_id (map ?g (revisions s)))" using inv(1) by (simp only: ids)
    show "rev_item r \<in> item_id ` set (items s)" if "r \<in> set (map ?g (revisions s))" for r
      using that inv(2) mem by (auto split: if_splits)
    show "length (filter (is_current_of (item_id i)) (map ?g (revisions s))) = 1"
      if "i \<in> set (items s)" "item_id i \<noteq> rev_item revision" for i
      using that inv(3) [of i] by (simp add: other r(3))
    show "filter (is_current_of (rev_item revision)) (map ?g (revisions s)) = []"
      by (simp only: r(3) none)
    show "rev_id revision = new_pk (map rev_id (map ?g (revisions s)))" by (simp only: ids r(1))
    show "rev_current revision = Some True" by (rule r(2))
    show "rev_item revision \<in> item_id ` set (items s)" using item by (simp add: r(3))
    show "revisions s' = map ?g (revisions s) @ [revision]" by (simp add: h(1) revs1)
    show "items s' = items s" by (simp add: h(1) its1)
  qed
  have fresh: "revision \<notin> set (revisions s)"
  proof
    assume "revision \<in> set (revisions s)"
    then have "rev_id revision \<in> set (map rev_id (revisions s))" by simp
    with new_pk_notin [of "map rev_id (revisions s)"] r(1) show False by simp
  qed
  have "supersedes s s' (item_id item)"
    unfolding supersedes_def current_revisions_def
    apply (rule exI [where x = old])
    apply (rule exI [where x = revision])
    using single none fresh r
    by (simp add: h(1) revs1 filter_current_append [OF r(2)] del: filter_append)
  moreover have "items s' = items s \<and> collections s' = collections s \<and> members s' = members s
      \<and> invitations s' = invitations s"
    by (simp add: h(1) s1)
  ultimately show ?thesis using inv' by simp
qed

subsection \<open>The serializers keep the invariant\<close>

lemma item_create_body_Inr:
  assumes "CollectionItemSerializer_create_body validate_etag vd s = Inr (instance, s')"
  shows "(filter (\<lambda>i. item_uid i = Some (vd_uid vd)) (items s) = []
          \<and> instance = \<lparr>item_id = new_pk (map item_id (items s)), item_uid = Some (vd_uid vd),
                 item_version = vd_version vd, item_encryptionKey = Some (vd_encryptionKey vd),
                 item_collection = vd_collection vd\<rparr>
          \<and> (validate_etag \<longrightarrow> vd_etag vd = None)
          \<and> (\<exists>revision. process_revisions_for_item instance (vd_content vd)
                  (s\<lparr>items := items s @ [instance]\<rparr>) = Inr (revision, s')))
       \<or> (filter (\<lambda>i. item_uid i = Some (vd_uid vd)) (items s) = [instance]
          \<and> (validate_etag \<longrightarrow> vd_etag vd = CollectionItem_etag s instance)
          \<and> (\<exists>s1 revision. demote_current_revision instance s = Inr s1
                \<and> process_revisions_for_item instance (vd_content vd) s1 = Inr (revision, s')))"
proof (cases "filter (\<lambda>i. item_uid i = Some (vd_uid vd)) (items s)")
  case Nil
  with assms show ?thesis
    by (auto simp: CollectionItemSerializer_create_body_def CollectionItem_get_or_create_def Let_def
          split: if_splits sum.splits)
next
  case (Cons x xs)
  with assms have xs: "xs = []"
    by (cases xs) (auto simp: CollectionItemSerializer_create_body_def CollectionItem_get_or_create_def)
  with assms Cons show ?thesis
    by (auto simp: CollectionItemSerializer_create_body_def CollectionItem_get_or_create_def Let_def
          split: if_splits sum.splits)
qed

lemma filter_singleton_mem: "filter P xs = [x] \<Longrightarrow> x \<in> set xs \<and> P x"
  by (auto dest!: arg_cong [where f = set])

lemma item_create_body_invariant:
  assumes inv: "db_invariant s"
    and ok: "CollectionItemSerializer_create_body validate_etag vd s = Inr (instance, s')"
  shows "db_invariant s'"
  using item_create_body_Inr [OF ok]
proof (elim disjE conjE exE)
  fix revision
  assume i: "instance = \<lparr>item_id = new_pk (map item_id (items s)), item_uid = Some (vd_uid vd),
                 item_version = vd_version vd, item_encryptionKey = Some (vd_encryptionKey vd),
                 item_collection = vd_collection vd\<rparr>"
    and p: "process_revisions_for_item instance (vd_content vd) (s\<lparr>items := items s @ [instance]\<rparr>) = Inr (revision, s')"
  have "item_id instance = new_pk (map item_id (items s))" by (subst i) simp
  then have fresh: "item_id instance \<notin> item_id ` set (items s)"
    using new_pk_notin [of "map item_id (items s)"] by simp
  show ?thesis
    by (rule revision_of_new_item [OF inv fresh _ _ p]) simp_all
next
  fix s1 revision
  assume f: "filter (\<lambda>i. item_uid i = Some (vd_uid vd)) (items s) = [instance]"
    and d: "demote_current_revision instance s = Inr s1"
    and p: "process_revisions_for_item instance (vd_content vd) s1 = Inr (revision, s')"
  from filter_singleton_mem [OF f] have "instance \<in> set (items s)" by simp
  from revision_of_existing_item [OF inv this d p] show ?thesis by simp
qed

lemma CollectionSerializer_create_body_unfold:
  "CollectionSerializer_create_body vd s =
     (if cvd_etag vd \<noteq> None then Inl (ValidationError ''Stoken is not None'')
      else case process_revisions_for_item
           \<lparr>item_id = new_pk (map item_id (items s)), item_uid = None,
            item_version = cvd_version vd, item_encryptionKey = None,
            item_collection = new_pk (map coll_id (collections s))\<rparr>
           (cvd_content vd)
           (s\<lparr>collections := collections s @ [\<lparr>coll_id = new_pk (map coll_id (collections s)), coll_uid = cvd_uid vd,
           coll_version = cvd_version vd, coll_owner = cvd_owner vd\<rparr>],
              items := items s @ [\<lparr>item_id = new_pk (map item_id (items s)), item_uid = None,
                 item_version = cvd_version vd, item_encryptionKey = None,
                 item_collection = new_pk (map coll_id (collections s))\<rparr>]\<rparr>) of
          Inl e \<Rightarrow> Inl e
        | Inr (revision, s3) \<Rightarrow>
           (case CollectionMember_save
           \<lparr>member_id = new_pk (map member_id (members s3)), member_stoken = new_pk (stokens s3),
            member_collection = new_pk (map coll_id (collections s)), member_user = cvd_owner vd,
            member_accessLevel = ADMIN, member_encryptionKey = cvd_encryptionKey vd\<rparr>
           (s3\<lparr>stokens := stokens s3 @ [new_pk (stokens s3)]\<rparr>) of
              Inl e \<Rightarrow> Inl e
            | Inr s5 \<Rightarrow> Inr (\<lparr>coll_id = new_pk (map coll_id (collections s)), coll_uid = cvd_uid vd,
           coll_version = cvd_version vd, coll_owner = cvd_owner vd\<rparr>, s5)))"
  by (simp add: CollectionSerializer_create_body_def Let_def Stoken_create_def split: sum.splits prod.splits)

lemma collection_create_body_Inr:
  assumes "CollectionSerializer_create_body vd s = Inr (instance, s')"
  obtains revision s3 where
       "cvd_etag vd = None"
       "instance = \<lparr>coll_id = new_pk (map coll_id (collections s)), coll_uid = cvd_uid vd,
           coll_version = cvd_version vd, coll_owner = cvd_owner vd\<rparr>"
       "process_revisions_for_item
           \<lparr>item_id = new_pk (map item_id (items s)), item_uid = None,
            item_version = cvd_version vd, item_encryptionKey = None,
            item_collection = new_pk (map coll_id (collections s))\<rparr>
           (cvd_content vd)
           (s\<lparr>collections := collections s @ [instance],
              items := items s @ [\<lparr>item_id = new_pk (map item_id (items s)), item_uid = None,
                 item_version = cvd_version vd, item_encryptionKey = None,
                 item_collection = new_pk (map coll_id (collections s))\<rparr>]\<rparr>) = Inr (revision, s3)"
       "CollectionMember_save
           \<lparr>member_id = new_pk (map member_id (members s3)), member_stoken = new_pk (stokens s3),
            member_collection = new_pk (map coll_id (collections s)), member_user = cvd_owner vd,
            member_accessLevel = ADMIN, member_encryptionKey = cvd_encryptionKey vd\<rparr>
           (s3\<lparr>stokens := stokens s3 @ [new_pk (stokens s3)]\<rparr>) = Inr s'"
proof -
  from assms have e: "cvd_etag vd = None"
    by (cases "cvd_etag vd") (simp_all add: CollectionSerializer_create_body_unfold)
  with assms show ?thesis
    by (simp add: CollectionSerializer_create_body_unfold split: sum.splits prod.splits)
       (rule that; simp)
qed

lemma CollectionMember_save_Inr:
  assumes "CollectionMember_save m s = Inr s'"
  shows "s' = s\<lparr>members :=
             (if member_id m \<in> set (map member_id (members s))
              then map (\<lambda>m'. if member_id m' = member_id m then m else m') (members s)
              else members s @ [m])\<rparr>"
    and "\<And>m'. m' \<in> set (members s) \<Longrightarrow> member_id m' \<noteq> member_id m
          \<Longrightarrow> \<not> (member_collection m' = member_collection m \<and> member_user m' = member_user m)"
proof -
  let ?clash = "\<exists>m' \<in> set (members s). member_id m' \<noteq> member_id m
            \<and> member_collection m' = member_collection m \<and> member_user m' = member_user m"
  from assms have n: "\<not> ?clash"
    by (cases ?clash) (simp_all add: CollectionMember_save_def)
  with assms show "s' = s\<lparr>members :=
             (if member_id m \<in> set (map member_id (members s))
              then map (\<lambda>m'. if member_id m' = member_id m then m else m') (members s)
              else members s @ [m])\<rparr>"
    by (cases "member_id m \<in> set (map member_id (members s))")
       (simp_all add: CollectionMember_save_def)
  show "\<not> (member_collection m' = member_collection m \<and> member_user m' = member_user m)"
    if "m' \<in> set (members s)" "member_id m' \<noteq> member_id m" for m'
    using n that by blast
qed

lemma collection_create_body_invariant:
  assumes inv: "db_invariant s"
    and ok: "CollectionSerializer_create_body vd s = Inr (instance, s')"
  shows "db_invariant s'"
proof -
  let ?main = "\<lparr>item_id = new_pk (map item_id (items s)), item_uid = None,
            item_version = cvd_version vd, item_encryptionKey = None,
            item_collection = new_pk (map coll_id (collections s))\<rparr>"
  from ok obtain revision s3 where
    p: "process_revisions_for_item ?main (cvd_content vd)
           (s\<lparr>collections := collections s @ [instance], items := items s @ [?main]\<rparr>) = Inr (revision, s3)"
    and m: "CollectionMember_save
           \<lparr>member_id = new_pk (map member_id (members s3)), member_stoken = new_pk (stokens s3),
            member_collection = new_pk (map coll_id (collections s)), member_user = cvd_owner vd,
            member_accessLevel = ADMIN, member_encryptionKey = cvd_encryptionKey vd\<rparr>
           (s3\<lparr>stokens := stokens s3 @ [new_pk (stokens s3)]\<rparr>) = Inr s'"
    by (rule collection_create_body_Inr)
  have fresh: "item_id ?main \<notin> item_id ` set (items s)"
    using new_pk_notin [of "map item_id (items s)"] by simp
  have s3: "db_invariant s3"
    by (rule revision_of_new_item [OF inv fresh _ _ p]) simp_all
  have "items s' = items s3" "revisions s' = revisions s3"
    by (subst CollectionMember_save_Inr(1) [OF m], simp)+
  from db_invariant_cong [OF this] s3 show ?thesis by simp
qed

lemma collection_update_body_Inr:
  assumes "CollectionSerializer_update_body instance etag rd s = Inr (c, s')"
  obtains main s1 revision where
    "Collection_main_item s instance = Inr main" "etag = CollectionItem_etag s main"
    "demote_current_revision main s = Inr s1"
    "process_revisions_for_item main rd s1 = Inr (revision, s')" "c = instance"
proof -
  from assms obtain main where m: "Collection_main_item s instance = Inr main"
    by (cases "Collection_main_item s instance")
       (simp_all add: CollectionSerializer_update_body_def Collection_etag_def)
  with assms have e: "etag = CollectionItem_etag s main"
    by (cases "etag = CollectionItem_etag s main")
       (simp_all add: CollectionSerializer_update_body_def Collection_etag_def)
  from assms m e obtain s1 where d: "demote_current_revision main s = Inr s1"
    by (cases "demote_current_revision main s")
       (simp_all add: CollectionSerializer_update_body_def Collection_etag_def)
  from assms m e d obtain revision where "process_revisions_for_item main rd s1 = Inr (revision, s')" "c = instance"
    by (cases "process_revisions_for_item main rd s1")
       (auto simp add: CollectionSerializer_update_body_def Collection_etag_def)
  with m e d show ?thesis by (rule that [of main s1 revision])
qed

lemma collection_update_body_invariant:
  assumes inv: "db_invariant s"
    and ok: "CollectionSerializer_update_body instance etag rd s = Inr (c, s')"
  shows "db_invariant s'"
proof -
  from ok obtain main s1 revision where
    m: "Collection_main_item s instance = Inr main"
    and d: "demote_current_revision main s = Inr s1"
    and p: "process_revisions_for_item main rd s1 = Inr (revision, s')"
    by (rule collection_update_body_Inr)
  from objects_get_Inr [OF m [unfolded Collection_main_item_def]] have "main \<in> set (items s)"
    by simp
  from revision_of_existing_item [OF inv this d p] show ?thesis by simp
qed

lemma member_update_frame:
  "items (snd (CollectionMemberSerializer_update m level s)) = items s
   \<and> revisions (snd (CollectionMemberSerializer_update m level s)) = revisions s"
proof (cases "member_accessLevel m = level")
  case True
  then show ?thesis
    by (simp add: CollectionMemberSerializer_update_def CollectionMemberSerializer_update_body_def atomic_def)
next
  case False
  let ?m' = "m\<lparr>member_stoken := new_pk (stokens s), member_accessLevel := level\<rparr>"
  let ?s1 = "s\<lparr>stokens := stokens s @ [new_pk (stokens s)]\<rparr>"
  show ?thesis
  proof (cases "CollectionMember_save ?m' ?s1")
    case (Inl e)
    with False show ?thesis
      by (simp add: CollectionMemberSerializer_update_def CollectionMemberSerializer_update_body_def
            atomic_def Stoken_create_def Let_def)
  next
    case (Inr s2)
    have "items s2 = items s" "revisions s2 = revisions s"
      by (subst CollectionMember_save_Inr(1) [OF Inr], simp)+
    with False Inr show ?thesis
      by (simp add: CollectionMemberSerializer_update_def CollectionMemberSerializer_update_body_def
            atomic_def Stoken_create_def Let_def)
  qed
qed

lemma invite_frame:
  "items (snd (CollectionInvitationSerializer_create u vd s)) = items s
   \<and> revisions (snd (CollectionInvitationSerializer_create u vd s)) = revisions s"
  by (cases "objects_get (\<lambda>m. member_collection m = coll_id (ivd_collection vd) \<and> member_user m = u) (members s)")
     (simp_all add: CollectionInvitationSerializer_create_def atomic_def Let_def)

lemma invitation_update_frame:
  "items (snd (CollectionInvitationSerializer_update i level key s)) = items s
   \<and> revisions (snd (CollectionInvitationSerializer_update i level key s)) = revisions s"
  by (simp add: CollectionInvitationSerializer_update_def atomic_def Let_def)

lemma accept_frame:
  "items (snd (InvitationAcceptSerializer_create i key s)) = items s
   \<and> revisions (snd (InvitationAcceptSerializer_create i key s)) = revisions s"
proof -
  let ?m = "\<lparr>member_id = new_pk (map member_id (members s)), member_stoken = new_pk (stokens s),
               member_collection = inv_collection i, member_user = inv_user i,
               member_accessLevel = inv_accessLevel i, member_encryptionKey = key\<rparr>"
  let ?s1 = "s\<lparr>stokens := stokens s @ [new_pk (stokens s)]\<rparr>"
  show ?thesis
  proof (cases "CollectionMember_save ?m ?s1")
    case (Inl e)
    then show ?thesis
      by (simp add: InvitationAcceptSerializer_create_def InvitationAcceptSerializer_create_body_def
            atomic_def Stoken_create_def Let_def)
  next
    case (Inr s2)
    have "items s2 = items s" "revisions s2 = revisions s"
      by (subst CollectionMember_save_Inr(1) [OF Inr], simp)+
    with Inr show ?thesis
      by (simp add: InvitationAcceptSerializer_create_def InvitationAcceptSerializer_create_body_def
            atomic_def Stoken_create_def Let_def)
  qed
qed

lemma step_invariant: "db_invariant s \<Longrightarrow> db_invariant (step request s)"
proof (cases request)
  case (ItemUpsert validate_etag vd)
  assume inv: "db_invariant s"
  show ?thesis
  proof (cases rule: atomic_cases [of "CollectionItemSerializer_create_body validate_etag vd" s])
    case (failed e)
    with inv ItemUpsert show ?thesis by (simp add: CollectionItemSerializer_create_def)
  next
    case (committed v s')
    from item_create_body_invariant [OF inv committed(1)] committed(2) ItemUpsert
    show ?thesis by (simp add: CollectionItemSerializer_create_def)
  qed
next
  case (CollectionCreate vd)
  assume inv: "db_invariant s"
  show ?thesis
  proof (cases rule: atomic_cases [of "CollectionSerializer_create_body vd" s])
    case (failed e)
    with inv CollectionCreate show ?thesis by (simp add: CollectionSerializer_create_def)
  next
    case (committed v s')
    from collection_create_body_invariant [OF inv committed(1)] committed(2) CollectionCreate
    show ?thesis by (simp add: CollectionSerializer_create_def)
  qed
next
  case (CollectionUpdate c etag rd)
  assume inv: "db_invariant s"
  show ?thesis
  proof (cases rule: atomic_cases [of "CollectionSerializer_update_body c etag rd" s])
    case (failed e)
    with inv CollectionUpdate show ?thesis by (simp add: CollectionSerializer_update_def)
  next
    case (committed v s')
    from collection_update_body_invariant [OF inv committed(1)] committed(2) CollectionUpdate
    show ?thesis by (simp add: CollectionSerializer_update_def)
  qed
next
  case (MemberUpdate m level)
  assume inv: "db_invariant s"
  from member_update_frame [of m level s] have "db_invariant (step request s) = db_invariant s"
    unfolding MemberUpdate step.simps by (intro db_invariant_cong) simp_all
  with inv show ?thesis by simp
next
  case (Invite u vd)
  assume inv: "db_invariant s"
  from invite_frame [of u vd s] have "db_invariant (step request s) = db_invariant s"
    unfolding Invite step.simps by (intro db_invariant_cong) simp_all
  with inv show ?thesis by simp
next
  case (InvitationUpdate i level key)
  assume inv: "db_invariant s"
  from invitation_update_frame [of i level key s] have "db_invariant (step request s) = db_invariant s"
    unfolding InvitationUpdate step.simps by (intro db_invariant_cong) simp_all
  with inv show ?thesis by simp
next
  case (InvitationAccept i key)
  assume inv: "db_invariant s"
  from accept_frame [of i key s] have "db_invariant (step request s) = db_invariant s"
    unfolding InvitationAccept step.simps by (intro db_invariant_cong) simp_all
  with inv show ?thesis by simp
qed

lemma run_invariant: "db_invariant s \<Longrightarrow> db_invariant (run requests s)"
  unfolding run_def by (induction requests arbitrary: s) (simp_all add: step_invariant)

lemma empty_db_invariant: "db_invariant empty_db"
  by (simp add: db_invariant_def empty_db_def)

subsection \<open>Exactly one current revision\<close>

text \<open>
  C1. After any sequence of requests on the empty database every item row has exactly one
  current revision, and an item without a row has none; every request keeps the
  invariant of the revision tables; and a successful upsert of an existing item, like a
  successful collection update, demotes the item's one current revision and appends one
  new current revision, in the same transaction.
\<close>

theorem single_current_invariant:
  "(\<forall>i \<in> set (items (run requests empty_db)).
       length (current_revisions (run requests empty_db) (item_id i)) = 1)
   \<and> (\<forall>item. item \<notin> item_id ` set (items (run requests empty_db))
         \<longrightarrow> current_revisions (run requests empty_db) item = [])
   \<and> (db_invariant s \<longrightarrow> db_invariant (step request s))
   \<and> (db_invariant s \<and> instance \<in> set (items s)
        \<and> CollectionItemSerializer_create validate_etag vd s = (Inr instance, s')
      \<longrightarrow> supersedes s s' (item_id instance))
   \<and> (db_invariant s \<and> CollectionSerializer_update c etag rd s = (Inr c', s'')
      \<longrightarrow> (\<exists>main. Collection_main_item s c = Inr main \<and> supersedes s s'' (item_id main)))"
proof (intro conjI impI allI ballI)
  let ?s = "run requests empty_db"
  have inv: "db_invariant ?s" by (rule run_invariant [OF empty_db_invariant])
  note d = db_invariantD [OF inv]
  show "length (current_revisions ?s (item_id i)) = 1" if "i \<in> set (items ?s)" for i
    using d(3) [OF that] by (simp add: current_revisions_def)
  show "current_revisions ?s item = []" if "item \<notin> item_id ` set (items ?s)" for item
  proof -
    have "\<not> is_current_of item r" if "r \<in> set (revisions ?s)" for r
      using d(2) [OF that] \<open>item \<notin> item_id ` set (items ?s)\<close> by (auto simp: is_current_of_def)
    then show ?thesis by (simp add: current_revisions_def filter_empty_conv)
  qed
next
  assume "db_invariant s"
  then show "db_invariant (step request s)" by (rule step_invariant)
next
  assume a: "db_invariant s \<and> instance \<in> set (items s)
        \<and> CollectionItemSerializer_create validate_etag vd s = (Inr instance, s')"
  then have ok: "CollectionItemSerializer_create_body validate_etag vd s = Inr (instance, s')"
    by (simp add: CollectionItemSerializer_create_def atomic_Inr)
  have fresh: "new_pk (map item_id (items s)) \<notin> item_id ` set (items s)"
    using new_pk_notin [of "map item_id (items s)"] by simp
  from item_create_body_Inr [OF ok] show "supersedes s s' (item_id instance)"
  proof (elim disjE conjE exE)
    assume "instance = \<lparr>item_id = new_pk (map item_id (items s)), item_uid = Some (vd_uid vd),
                 item_version = vd_version vd, item_encryptionKey = Some (vd_encryptionKey vd),
                 item_collection = vd_collection vd\<rparr>"
    then have "item_id instance = new_pk (map item_id (items s))" by simp
    with a fresh show ?thesis by force
  next
    fix s1 revision
    assume "demote_current_revision instance s = Inr s1"
      and "process_revisions_for_item instance (vd_content vd) s1 = Inr (revision, s')"
    from revision_of_existing_item [OF _ _ this] a show ?thesis by simp
  qed
next
  assume a: "db_invariant s \<and> CollectionSerializer_update c etag rd s = (Inr c', s'')"
  then have "CollectionSerializer_update_body c etag rd s = Inr (c', s'')"
    by (simp add: CollectionSerializer_update_def atomic_Inr)
  then obtain main s1 revision where
    m: "Collection_main_item s c = Inr main"
    and d: "demote_current_revision main s = Inr s1"
    and p: "process_revisions_for_item main rd s1 = Inr (revision, s'')"
    by (rule collection_update_body_Inr)
  from objects_get_Inr [OF m [unfolded Collection_main_item_def]] have "main \<in> set (items s)"
    by simp
  from revision_of_existing_item [OF _ this d p] a m
  show "\<exists>main. Collection_main_item s c = Inr main \<and> supersedes s s'' (item_id main)" by auto
qed

theorem single_current_invariant_witness:
  "map (\<lambda>i. length (current_revisions ex_s1 (item_id i))) (items ex_s1) = [1, 1]
   \<and> current_revisions ex_s1 3 = []
   \<and> db_invariant ex_s1 \<and> db_invariant ex_s2
   \<and> ex_item_a \<in> set (items ex_s1)
   \<and> CollectionItemSerializer_create True ex_vd2 ex_s1 = (Inr ex_item_a, ex_s2)
   \<and> supersedes ex_s1 ex_s2 (item_id ex_item_a)
   \<and> CollectionSerializer_update ex_coll (Some ''r0'') ex_rd_coll ex_s1 = (Inr ex_coll, ex_s3)
   \<and> Collection_main_item ex_s1 ex_coll = Inr ex_main_item
   \<and> supersedes ex_s1 ex_s3 (item_id ex_main_item)"
proof -
  have inv: "db_invariant ex_s1" by code_simp
  have item: "ex_item_a \<in> set (items ex_s1)" by code_simp
  have up: "CollectionItemSerializer_create True ex_vd2 ex_s1 = (Inr ex_item_a, ex_s2)" by code_simp
  have cu: "CollectionSerializer_update ex_coll (Some ''r0'') ex_rd_coll ex_s1 = (Inr ex_coll, ex_s3)"
    by code_simp
  have main: "Collection_main_item ex_s1 ex_coll = Inr ex_main_item" by code_simp
  have s2: "ex_s2 = step (ItemUpsert True ex_vd2) ex_s1" by (simp add: ex_s2_def run_def)
  note t = single_current_invariant [of "[CollectionCreate ex_cvd, ItemUpsert True ex_vd]"
      ex_s1 "ItemUpsert True ex_vd2" ex_item_a True ex_vd2 ex_s2 ex_coll "Some ''r0''" ex_rd_coll
      ex_coll ex_s3, folded ex_s1_def]
  from t have a: "\<forall>i \<in> set (items ex_s1). length (current_revisions ex_s1 (item_id i)) = 1"
    by blast
  have items: "items ex_s1 = [ex_main_item, ex_item_a]" by code_simp
  from a have one: "map (\<lambda>i. length (current_revisions ex_s1 (item_id i))) (items ex_s1) = [1, 1]"
    by (simp add: items)
  have "3 \<notin> item_id ` set (items ex_s1)" by (simp add: items ex_main_item_def ex_item_a_def)
  with t have none: "current_revisions ex_s1 3 = []" by blast
  from t inv have inv2: "db_invariant ex_s2" unfolding s2 by blast
  from t inv item up have s: "supersedes ex_s1 ex_s2 (item_id ex_item_a)" by blast
  from t inv cu obtain m where "Collection_main_item ex_s1 ex_coll = Inr m"
    "supersedes ex_s1 ex_s3 (item_id m)" by blast
  with main have sc: "supersedes ex_s1 ex_s3 (item_id ex_main_item)" by simp
  from one none inv inv2 item up s cu main sc show ?thesis by simp
qed

subsection \<open>The etag gate of an upsert\<close>

lemma item_create_body_new:
  assumes "filter (\<lambda>i. item_uid i = Some (vd_uid vd)) (items s) = []"
  shows "CollectionItemSerializer_create_body validate_etag vd s =
     (if validate_etag \<and> None \<noteq> vd_etag vd then Inl (wrong_etag None (vd_etag vd))
      else case process_revisions_for_item
                  \<lparr>item_id = new_pk (map item_id (items s)), item_uid = Some (vd_uid vd),
                   item_version = vd_version vd, item_encryptionKey = Some (vd_encryptionKey vd),
                   item_collection = vd_collection vd\<rparr> (vd_content vd)
                  (s\<lparr>items := items s @
                     [\<lparr>item_id = new_pk (map item_id (items s)), item_uid = Some (vd_uid vd),
                       item_version = vd_version vd, item_encryptionKey = Some (vd_encryptionKey vd),
                       item_collection = vd_collection vd\<rparr>]\<rparr>) of
             Inl e \<Rightarrow> Inl e
           | Inr (revision, s3) \<Rightarrow>
               Inr (\<lparr>item_id = new_pk (map item_id (items s)), item_uid = Some (vd_uid vd),
                     item_version = vd_version vd, item_encryptionKey = Some (vd_encryptionKey vd),
                     item_collection = vd_collection vd\<rparr>, s3))"
  using assms
  by (simp add: CollectionItemSerializer_create_body_def CollectionItem_get_or_create_def Let_def
        split: sum.splits prod.splits)

lemma item_create_body_existing:
  assumes "filter (\<lambda>i. item_uid i = Some (vd_uid vd)) (items s) = [i]"
  shows "CollectionItemSerializer_create_body validate_etag vd s =
     (if validate_etag \<and> CollectionItem_etag s i \<noteq> vd_etag vd
      then Inl (wrong_etag (CollectionItem_etag s i) (vd_etag vd))
      else case demote_current_revision i s of
             Inl e \<Rightarrow> Inl e
           | Inr s2 \<Rightarrow>
               (case process_revisions_for_item i (vd_content vd) s2 of
                  Inl e \<Rightarrow> Inl e
                | Inr (revision, s3) \<Rightarrow> Inr (i, s3)))"
  using assms
  by (simp add: CollectionItemSerializer_create_body_def CollectionItem_get_or_create_def Let_def
        split: sum.splits prod.splits)

lemma objects_get_error:
  "objects_get P rows = Inl e \<Longrightarrow> e = DoesNotExist \<or> e = MultipleObjectsReturned"
  by (auto simp: objects_get_def split: list.splits)

lemma process_chunks_error:
  "process_chunks item refs objs s = Inl e \<Longrightarrow> e = DoesNotExist \<or> e = MultipleObjectsReturned"
proof (induction item refs objs s rule: process_chunks.induct)
  case (1 item chunks_objs s)
  then show ?case by simp
next
  case (2 item uid content rest chunks_objs s)
  then show ?case by (simp add: Let_def)
next
  case (3 item uid rest chunks_objs s)
  show ?case
  proof (cases "objects_get (\<lambda>c. chunk_uid c = uid) (chunks s)")
    case (Inl e')
    with 3(2) have "e' = e" by simp
    with objects_get_error [OF Inl] show ?thesis by blast
  next
    case (Inr chunk)
    with 3 show ?thesis by simp
  qed
qed

lemma process_revisions_for_item_error:
  assumes "process_revisions_for_item item rd s = Inl e"
  shows "e = DoesNotExist \<or> e = MultipleObjectsReturned \<or> e = IntegrityError"
proof (cases "process_chunks item (rd_chunks_relation rd) [] s")
  case (Inl e')
  with assms have "e' = e" by (simp add: process_revisions_for_item_def)
  with process_chunks_error [OF Inl] show ?thesis by blast
next
  case (Inr p)
  with assms show ?thesis
    by (cases p)
       (auto simp: process_revisions_for_item_def Stoken_create_def Let_def
          CollectionItemRevision_create_def split: if_splits)
qed

lemma demote_current_revision_error:
  "demote_current_revision item s = Inl e \<Longrightarrow> e = AttributeError"
  by (auto simp: demote_current_revision_def split: option.splits)

lemma atomic_failed_unchanged: "fst (atomic body s) = Inl e \<Longrightarrow> snd (atomic body s) = s"
  by (cases "body s") (auto simp: atomic_def)

lemma demote_items: "demote_current_revision item s = Inr s1 \<Longrightarrow> items s1 = items s"
  by (auto dest!: demote_current_revision_Inr)

lemma process_items:
  "process_revisions_for_item item rd s = Inr (revision, s') \<Longrightarrow> items s' = items s"
  by (auto dest!: process_revisions_for_item_Inr)

lemma step_items:
  "items (step request s) = items s
   \<or> (\<exists>uid new. items (step request s) = items s @ [new] \<and> item_uid new = Some uid
         \<and> filter (\<lambda>i. item_uid i = Some uid) (items s) = [])
   \<or> (\<exists>new. items (step request s) = items s @ [new] \<and> item_uid new = None)"
proof (cases request)
  case (ItemUpsert validate_etag vd)
  show ?thesis
  proof (cases rule: atomic_cases [of "CollectionItemSerializer_create_body validate_etag vd" s])
    case (failed e)
    with ItemUpsert show ?thesis by (simp add: CollectionItemSerializer_create_def)
  next
    case (committed v s')
    from item_create_body_Inr [OF committed(1)]
    have "items s' = items s
      \<or> (items s' = items s @ [v] \<and> item_uid v = Some (vd_uid vd)
           \<and> filter (\<lambda>i. item_uid i = Some (vd_uid vd)) (items s) = [])"
    proof (elim disjE conjE exE)
      fix revision
      assume f: "filter (\<lambda>i. item_uid i = Some (vd_uid vd)) (items s) = []"
        and v: "v = \<lparr>item_id = new_pk (map item_id (items s)), item_uid = Some (vd_uid vd),
                 item_version = vd_version vd, item_encryptionKey = Some (vd_encryptionKey vd),
                 item_collection = vd_collection vd\<rparr>"
        and p: "process_revisions_for_item v (vd_content vd) (s\<lparr>items := items s @ [v]\<rparr>) = Inr (revision, s')"
      have "item_uid v = Some (vd_uid vd)" by (subst v) simp
      with process_items [OF p] f show ?thesis by simp
    next
      fix s1 revision
      assume "demote_current_revision v s = Inr s1"
        and "process_revisions_for_item v (vd_content vd) s1 = Inr (revision, s')"
      then have "items s' = items s" by (simp add: demote_items process_items)
      then show ?thesis by simp
    qed
    with committed(2) ItemUpsert show ?thesis
      by (auto simp: CollectionItemSerializer_create_def)
  qed
next
  case (CollectionCreate vd)
  show ?thesis
  proof (cases rule: atomic_cases [of "CollectionSerializer_create_body vd" s])
    case (failed e)
    with CollectionCreate show ?thesis by (simp add: CollectionSerializer_create_def)
  next
    case (committed v s')
    let ?main = "\<lparr>item_id = new_pk (map item_id (items s)), item_uid = None,
            item_version = cvd_version vd, item_encryptionKey = None,
            item_collection = new_pk (map coll_id (collections s))\<rparr>"
    from committed(1) obtain revision s3 where
      p: "process_revisions_for_item ?main (cvd_content vd)
           (s\<lparr>collections := collections s @ [v], items := items s @ [?main]\<rparr>) = Inr (revision, s3)"
      and m: "CollectionMember_save
           \<lparr>member_id = new_pk (map member_id (members s3)), member_stoken = new_pk (stokens s3),
            member_collection = new_pk (map coll_id (collections s)), member_user = cvd_owner vd,
            member_accessLevel = ADMIN, member_encryptionKey = cvd_encryptionKey vd\<rparr>
           (s3\<lparr>stokens := stokens s3 @ [new_pk (stokens s3)]\<rparr>) = Inr s'"
      by (rule collection_create_body_Inr)
    have "items s' = items s3"
      by (subst CollectionMember_save_Inr(1) [OF m]) simp
    with process_items [OF p] have "items s' = items s @ [?main]" by simp
    with committed(2) CollectionCreate show ?thesis
      by (simp add: CollectionSerializer_create_def)
  qed
next
  case (CollectionUpdate c etag rd)
  have "items (step request s) = items s"
  proof (cases rule: atomic_cases [of "CollectionSerializer_update_body c etag rd" s])
    case (failed e)
    with CollectionUpdate show ?thesis by (simp add: CollectionSerializer_update_def)
  next
    case (committed v s')
    from committed(1) obtain main s1 revision where
      "demote_current_revision main s = Inr s1"
      "process_revisions_for_item main rd s1 = Inr (revision, s')"
      by (rule collection_update_body_Inr)
    then have "items s' = items s" by (simp add: demote_items process_items)
    with committed(2) CollectionUpdate show ?thesis
      by (simp add: CollectionSerializer_update_def)
  qed
  then show ?thesis by simp
next
  case (MemberUpdate m level)
  with member_update_frame [of m level s] show ?thesis by simp
next
  case (Invite u vd)
  with invite_frame [of u vd s] show ?thesis by simp
next
  case (InvitationUpdate i level key)
  with invitation_update_frame [of i level key s] show ?thesis by simp
next
  case (InvitationAccept i key)
  with accept_frame [of i key s] show ?thesis by simp
qed

lemma step_uid_unique:
  assumes "\<forall>uid. length (filter (\<lambda>i. item_uid i = Some uid) (items s)) \<le> 1"
  shows "length (filter (\<lambda>i. item_uid i = Some uid) (items (step request s))) \<le> 1"
  using step_items [of request s]
proof (elim disjE exE conjE)
  assume "items (step request s) = items s"
  with assms show ?thesis by simp
next
  fix u new
  assume i: "items (step request s) = items s @ [new]" and n: "item_uid new = Some u"
    and f: "filter (\<lambda>i. item_uid i = Some u) (items s) = []"
  show ?thesis
  proof (cases "u = uid")
    case True
    with f n show ?thesis by (simp add: i)
  next
    case False
    with n assms show ?thesis by (simp add: i)
  qed
next
  fix new
  assume "items (step request s) = items s @ [new]" "item_uid new = None"
  with assms show ?thesis by simp
qed

lemma run_uid_unique:
  "\<forall>uid. length (filter (\<lambda>i. item_uid i = Some uid) (items s)) \<le> 1
   \<Longrightarrow> length (filter (\<lambda>i. item_uid i = Some uid) (items (run requests s))) \<le> 1"
  unfolding run_def
proof (induction requests arbitrary: s uid)
  case Nil
  then show ?case by simp
next
  case (Cons r rs)
  have "\<forall>uid. length (filter (\<lambda>i. item_uid i = Some uid) (items (step r s))) \<le> 1"
    using step_uid_unique [OF Cons(2)] by blast
  from Cons(1) [OF this] show ?case by simp
qed

text \<open>When an upsert succeeds.\<close>

lemma demote_clears:
  assumes inv: "db_invariant s" and item: "item \<in> set (items s)"
  shows "\<exists>s1. demote_current_revision item s = Inr s1 \<and> chunks s1 = chunks s
           \<and> list_all (\<lambda>r. \<not> is_current_of (item_id item) r) (revisions s1)"
proof -
  note d = db_invariantD [OF inv]
  let ?P = "is_current_of (item_id item)"
  from d(3) [OF item] obtain old where single: "filter ?P (revisions s) = [old]"
    by (cases "filter ?P (revisions s)") auto
  then have first: "objects_first ?P (revisions s) = Some old"
    by (simp add: objects_first_def)
  from objects_first_Some [OF first] have mem: "old \<in> set (revisions s)" by simp
  let ?old' = "old\<lparr>rev_current := None\<rparr>"
  let ?g = "\<lambda>r. if r = old then ?old' else r"
  let ?s1 = "CollectionItemRevision_save ?old' s"
  have dem: "demote_current_revision item s = Inr ?s1"
    by (simp add: demote_current_revision_def first)
  have revs1: "revisions ?s1 = map ?g (revisions s)"
    using map_by_key [OF d(1) mem, of ?old'] by (simp add: CollectionItemRevision_save_def)
  have notcur: "\<not> ?P ?old'" by (simp add: is_current_of_def)
  have "filter ?P (map ?g (revisions s)) = filter (\<lambda>r. ?P r \<and> r \<noteq> old) (revisions s)"
    by (rule filter_map_replace) (rule notcur)
  also have "\<dots> = []" by (rule filter_singleton_remove [OF single])
  finally have "filter ?P (revisions ?s1) = []" by (simp only: revs1)
  then have "list_all (\<lambda>r. \<not> ?P r) (revisions ?s1)"
    by (auto simp: filter_empty_conv list_all_iff)
  moreover have "chunks ?s1 = chunks s" by (simp add: CollectionItemRevision_save_def)
  ultimately show ?thesis using dem by blast
qed

lemma new_item_no_revision:
  assumes inv: "db_invariant s"
  shows "list_all (\<lambda>r. \<not> is_current_of (new_pk (map item_id (items s))) r) (revisions s)"
proof -
  note d = db_invariantD [OF inv]
  have "rev_item r \<noteq> new_pk (map item_id (items s))" if "r \<in> set (revisions s)" for r
    using d(2) [OF that] new_pk_notin [of "map item_id (items s)"] by auto
  then show ?thesis by (auto simp: list_all_iff is_current_of_def)
qed

lemma refs_resolve_inline:
  assumes "list_all (\<lambda>r. snd r \<noteq> None) refs"
  shows "refs_resolve stored refs"
  unfolding refs_resolve_alt
proof (intro allI impI)
  fix i assume i: "i < length refs" and n: "snd (refs ! i) = None"
  from assms nth_mem [OF i] have "snd (refs ! i) \<noteq> None"
    by (simp only: list_all_iff) blast
  with n have False by blast
  then show "length (filter (\<lambda>c. chunk_uid c = fst (refs ! i)) stored)
          + length (filter (\<lambda>r. fst r = fst (refs ! i)) (inline_refs (take i refs))) = 1" ..
qed

lemma item_create_succeeds:
  assumes inv: "db_invariant s"
    and le: "length (filter (\<lambda>i. item_uid i = Some (vd_uid vd)) (items s)) \<le> 1"
  shows "(\<exists>instance. fst (CollectionItemSerializer_create validate_etag vd s) = Inr instance)
     \<longleftrightarrow> (validate_etag \<longrightarrow> vd_etag vd = current_etag s (vd_uid vd))
         \<and> refs_resolve (chunks s) (rd_chunks_relation (vd_content vd))"
proof -
  let ?f = "filter (\<lambda>i. item_uid i = Some (vd_uid vd)) (items s)"
  let ?body = "CollectionItemSerializer_create_body validate_etag vd s"
  let ?refs = "rd_chunks_relation (vd_content vd)"
  have fst: "(\<exists>instance. fst (CollectionItemSerializer_create validate_etag vd s) = Inr instance)
      \<longleftrightarrow> (\<exists>instance s'. ?body = Inr (instance, s'))"
    by (cases ?body) (auto simp: CollectionItemSerializer_create_def atomic_def)
  have "(\<exists>instance s'. ?body = Inr (instance, s'))
     \<longleftrightarrow> (validate_etag \<longrightarrow> vd_etag vd = current_etag s (vd_uid vd)) \<and> refs_resolve (chunks s) ?refs"
  proof (cases ?f)
    case Nil
    let ?new = "\<lparr>item_id = new_pk (map item_id (items s)), item_uid = Some (vd_uid vd),
                   item_version = vd_version vd, item_encryptionKey = Some (vd_encryptionKey vd),
                   item_collection = vd_collection vd\<rparr>"
    let ?s1 = "s\<lparr>items := items s @ [?new]\<rparr>"
    have cur: "current_etag s (vd_uid vd) = None" by (simp add: current_etag_def Nil)
    from new_item_no_revision [OF inv]
    have none: "list_all (\<lambda>r. \<not> is_current_of (item_id ?new) r) (revisions ?s1)" by simp
    from process_revisions_for_item_succeeds [of ?new "vd_content vd" ?s1] none
    have p: "(\<exists>revision s'. process_revisions_for_item ?new (vd_content vd) ?s1 = Inr (revision, s'))
        \<longleftrightarrow> refs_resolve (chunks s) ?refs"
      by simp
    show ?thesis
    proof (cases "validate_etag \<and> None \<noteq> vd_etag vd")
      case True
      then have v: "validate_etag" by (rule conjunct1)
      from True have n: "vd_etag vd \<noteq> None" by (rule conjunct2 [THEN not_sym])
      from True have "?body = Inl (wrong_etag None (vd_etag vd))"
        by (simp only: item_create_body_new [OF Nil] if_True simp_thms)
      with v n show ?thesis by (simp only: cur) blast
    next
      case False
      then have gate: "validate_etag \<longrightarrow> vd_etag vd = None" by auto
      have body: "?body = (case process_revisions_for_item ?new (vd_content vd) ?s1 of
             Inl e \<Rightarrow> Inl e | Inr (revision, s3) \<Rightarrow> Inr (?new, s3))"
        using False by (simp only: item_create_body_new [OF Nil] if_False)
      show ?thesis
      proof (cases "process_revisions_for_item ?new (vd_content vd) ?s1")
        case (Inl e)
        with p have "\<not> refs_resolve (chunks s) ?refs" by simp
        with Inl show ?thesis by (simp add: body)
      next
        case (Inr q)
        obtain revision s' where q: "q = (revision, s')" by (cases q)
        from p Inr q have "refs_resolve (chunks s) ?refs" by simp
        with Inr q gate show ?thesis by (simp add: body cur)
      qed
    qed
  next
    case (Cons i rest)
    with le have f: "?f = [i]" by simp
    from arg_cong [OF f, of set] have item: "i \<in> set (items s)" by auto
    have cur: "current_etag s (vd_uid vd) = CollectionItem_etag s i"
      by (simp add: current_etag_def f)
    from demote_clears [OF inv item] obtain s1 where
      d: "demote_current_revision i s = Inr s1" "chunks s1 = chunks s"
         "list_all (\<lambda>r. \<not> is_current_of (item_id i) r) (revisions s1)"
      by blast
    from process_revisions_for_item_succeeds [of i "vd_content vd" s1] d(2,3)
    have p: "(\<exists>revision s'. process_revisions_for_item i (vd_content vd) s1 = Inr (revision, s'))
        \<longleftrightarrow> refs_resolve (chunks s) ?refs"
      by simp
    show ?thesis
    proof (cases "validate_etag \<and> CollectionItem_etag s i \<noteq> vd_etag vd")
      case True
      then have v: "validate_etag" by (rule conjunct1)
      from True have n: "vd_etag vd \<noteq> CollectionItem_etag s i" by (rule conjunct2 [THEN not_sym])
      from True have "?body = Inl (wrong_etag (CollectionItem_etag s i) (vd_etag vd))"
        by (simp only: item_create_body_existing [OF f] if_True simp_thms)
      with v n show ?thesis by (simp only: cur) blast
    next
      case False
      then have gate: "validate_etag \<longrightarrow> vd_etag vd = CollectionItem_etag s i" by auto
      have body: "?body = (case process_revisions_for_item i (vd_content vd) s1 of
             Inl e \<Rightarrow> Inl e | Inr (revision, s3) \<Rightarrow> Inr (i, s3))"
        using False by (simp only: item_create_body_existing [OF f] if_False d(1) sum.case)
      show ?thesis
      proof (cases "process_revisions_for_item i (vd_content vd) s1")
        case (Inl e)
        with p have "\<not> refs_resolve (chunks s) ?refs" by simp
        with Inl show ?thesis by (simp add: body)
      next
        case (Inr q)
        obtain revision s' where q: "q = (revision, s')" by (cases q)
        from p Inr q have "refs_resolve (chunks s) ?refs" by simp
        with Inr q gate show ?thesis by (simp add: body cur)
      qed
    qed
  qed
  with fst show ?thesis by simp
qed

lemma etag_mismatch:
  assumes le: "length (filter (\<lambda>i. item_uid i = Some (vd_uid vd)) (items s)) \<le> 1"
    and ne: "vd_etag vd \<noteq> current_etag s (vd_uid vd)"
  shows "CollectionItemSerializer_create True vd s
           = (Inl (wrong_etag (current_etag s (vd_uid vd)) (vd_etag vd)), s)"
proof -
  let ?f = "filter (\<lambda>i. item_uid i = Some (vd_uid vd)) (items s)"
  let ?cur = "current_etag s (vd_uid vd)"
  have "CollectionItemSerializer_create_body True vd s = Inl (wrong_etag ?cur (vd_etag vd))"
  proof (cases ?f)
    case Nil
    from ne have "None \<noteq> vd_etag vd" by (auto simp: current_etag_def Nil)
    then show ?thesis
      by (simp add: item_create_body_new [OF Nil] current_etag_def Nil)
  next
    case (Cons i rest)
    with le have f: "?f = [i]" by simp
    from ne have "CollectionItem_etag s i \<noteq> vd_etag vd" by (auto simp: current_etag_def f)
    then show ?thesis
      by (simp add: item_create_body_existing [OF f] current_etag_def f)
  qed
  then show ?thesis by (simp add: CollectionItemSerializer_create_def atomic_def)
qed

lemma ChunksField_carries_content:
  "ChunksField_to_internal_value data = Inr ref \<Longrightarrow> snd ref \<noteq> None"
  by (auto simp: ChunksField_to_internal_value_def split: list.splits sum.splits)

text \<open>
  C2. With strict etag checking, and at most one item with the uid: an upsert whose etag
  differs from the current etag (the uid of the item's current revision, or \<open>None\<close> for
  a uid that no item has) fails with the etag error, which names the expected and the
  supplied etag, and changes nothing; an upsert that succeeds had the current etag; and
  an upsert with the current etag never fails with a validation error. With or without
  the check, a failed upsert changes nothing. In every database reached from the empty
  one at most one item has a given uid.

  When the invariant of the revision tables holds as well, the upsert succeeds exactly
  when the etag is the current one and every chunk reference without content resolves.
  The chunk field of a request yields only references with content. So in every database
  reached from the empty one, an upsert whose references all carry content succeeds
  exactly when its etag is the current one, and fails with the etag error, changing
  nothing, otherwise.
\<close>

theorem etag_gate:
  "(length (filter (\<lambda>i. item_uid i = Some (vd_uid vd)) (items s)) \<le> 1 \<longrightarrow>
      (vd_etag vd \<noteq> current_etag s (vd_uid vd) \<longrightarrow>
         CollectionItemSerializer_create True vd s
           = (Inl (wrong_etag (current_etag s (vd_uid vd)) (vd_etag vd)), s))
    \<and> (\<forall>instance. fst (CollectionItemSerializer_create True vd s) = Inr instance
          \<longrightarrow> vd_etag vd = current_etag s (vd_uid vd))
    \<and> (vd_etag vd = current_etag s (vd_uid vd) \<longrightarrow>
         (\<forall>m. fst (CollectionItemSerializer_create True vd s) \<noteq> Inl (ValidationError m))))
   \<and> (\<forall>e. fst (CollectionItemSerializer_create validate_etag vd s) = Inl e
         \<longrightarrow> snd (CollectionItemSerializer_create validate_etag vd s) = s)
   \<and> length (filter (\<lambda>i. item_uid i = Some uid) (items (run requests empty_db))) \<le> 1
   \<and> (db_invariant s \<and> length (filter (\<lambda>i. item_uid i = Some (vd_uid vd)) (items s)) \<le> 1 \<longrightarrow>
        ((\<exists>instance. fst (CollectionItemSerializer_create True vd s) = Inr instance)
           \<longleftrightarrow> vd_etag vd = current_etag s (vd_uid vd)
               \<and> refs_resolve (chunks s) (rd_chunks_relation (vd_content vd))))
   \<and> (list_all (\<lambda>r. snd r \<noteq> None) (rd_chunks_relation (vd_content vd)) \<longrightarrow>
        ((\<exists>instance. fst (CollectionItemSerializer_create True vd (run requests empty_db))
                        = Inr instance)
           \<longleftrightarrow> vd_etag vd = current_etag (run requests empty_db) (vd_uid vd)))
   \<and> (vd_etag vd \<noteq> current_etag (run requests empty_db) (vd_uid vd) \<longrightarrow>
        CollectionItemSerializer_create True vd (run requests empty_db)
          = (Inl (wrong_etag (current_etag (run requests empty_db) (vd_uid vd)) (vd_etag vd)),
             run requests empty_db))
   \<and> (\<forall>ref. ChunksField_to_internal_value data = Inr ref \<longrightarrow> snd ref \<noteq> None)"
proof -
  let ?f = "filter (\<lambda>i. item_uid i = Some (vd_uid vd)) (items s)"
  let ?cur = "current_etag s (vd_uid vd)"
  let ?body = "CollectionItemSerializer_create_body True vd s"
  let ?S = "run requests empty_db"
  have gate: "length ?f \<le> 1 \<longrightarrow>
      (vd_etag vd \<noteq> ?cur \<longrightarrow>
         CollectionItemSerializer_create True vd s = (Inl (wrong_etag ?cur (vd_etag vd)), s))
    \<and> (\<forall>instance. fst (CollectionItemSerializer_create True vd s) = Inr instance
          \<longrightarrow> vd_etag vd = ?cur)
    \<and> (vd_etag vd = ?cur \<longrightarrow>
         (\<forall>m. fst (CollectionItemSerializer_create True vd s) \<noteq> Inl (ValidationError m)))"
  proof (intro conjI impI allI)
    assume le: "length ?f \<le> 1"
    have errors: "\<not> (\<exists>m. ?body = Inl (ValidationError m))" if eq: "vd_etag vd = ?cur"
    proof (cases ?f)
      case Nil
      have "e = DoesNotExist \<or> e = MultipleObjectsReturned \<or> e = IntegrityError"
        if "?body = Inl e" for e
        using that eq
        by (auto simp: item_create_body_new [OF Nil] current_etag_def Nil
              split: sum.splits dest: process_revisions_for_item_error)
      then show ?thesis by auto
    next
      case (Cons i rest)
      with le have f: "?f = [i]" by simp
      have "e = DoesNotExist \<or> e = MultipleObjectsReturned \<or> e = IntegrityError \<or> e = AttributeError"
        if "?body = Inl e" for e
        using that eq
        by (auto simp: item_create_body_existing [OF f] current_etag_def f
              split: sum.splits dest: process_revisions_for_item_error demote_current_revision_error)
      then show ?thesis by auto
    qed
    show "CollectionItemSerializer_create True vd s = (Inl (wrong_etag ?cur (vd_etag vd)), s)"
      if "vd_etag vd \<noteq> ?cur"
      using le that by (rule etag_mismatch)
    show "vd_etag vd = ?cur" if ok: "fst (CollectionItemSerializer_create True vd s) = Inr created"
      for created
    proof (rule ccontr)
      assume "vd_etag vd \<noteq> ?cur"
      from etag_mismatch [OF le this] ok show False by simp
    qed
    show "fst (CollectionItemSerializer_create True vd s) \<noteq> Inl (ValidationError m)"
      if "vd_etag vd = ?cur" for m
      using errors [OF that]
      by (cases ?body) (auto simp: CollectionItemSerializer_create_def atomic_def)
  qed
  have unchanged: "\<forall>e. fst (CollectionItemSerializer_create validate_etag vd s) = Inl e
         \<longrightarrow> snd (CollectionItemSerializer_create validate_etag vd s) = s"
    unfolding CollectionItemSerializer_create_def by (blast intro: atomic_failed_unchanged)
  have unique: "length (filter (\<lambda>i. item_uid i = Some uid) (items ?S)) \<le> 1" for uid
    by (rule run_uid_unique) (simp add: empty_db_def)
  have general: "db_invariant s \<and> length ?f \<le> 1 \<longrightarrow>
        ((\<exists>instance. fst (CollectionItemSerializer_create True vd s) = Inr instance)
           \<longleftrightarrow> vd_etag vd = ?cur \<and> refs_resolve (chunks s) (rd_chunks_relation (vd_content vd)))"
  proof
    assume "db_invariant s \<and> length ?f \<le> 1"
    then have "db_invariant s" "length ?f \<le> 1" by blast+
    from item_create_succeeds [OF this, of True]
    show "(\<exists>instance. fst (CollectionItemSerializer_create True vd s) = Inr instance)
           \<longleftrightarrow> vd_etag vd = ?cur \<and> refs_resolve (chunks s) (rd_chunks_relation (vd_content vd))"
      by simp
  qed
  have inv: "db_invariant ?S" by (rule run_invariant [OF empty_db_invariant])
  have reachable: "list_all (\<lambda>r. snd r \<noteq> None) (rd_chunks_relation (vd_content vd)) \<longrightarrow>
        ((\<exists>instance. fst (CollectionItemSerializer_create True vd ?S) = Inr instance)
           \<longleftrightarrow> vd_etag vd = current_etag ?S (vd_uid vd))"
  proof
    assume "list_all (\<lambda>r. snd r \<noteq> None) (rd_chunks_relation (vd_content vd))"
    then have "refs_resolve (chunks ?S) (rd_chunks_relation (vd_content vd))"
      by (rule refs_resolve_inline)
    with item_create_succeeds [where s = ?S and vd = vd and validate_etag = True, OF inv unique]
    show "(\<exists>instance. fst (CollectionItemSerializer_create True vd ?S) = Inr instance)
           \<longleftrightarrow> vd_etag vd = current_etag ?S (vd_uid vd)"
      by simp
  qed
  have conflict: "vd_etag vd \<noteq> current_etag ?S (vd_uid vd) \<longrightarrow>
        CollectionItemSerializer_create True vd ?S
          = (Inl (wrong_etag (current_etag ?S (vd_uid vd)) (vd_etag vd)), ?S)"
    using etag_mismatch [OF unique] by blast
  have field: "\<forall>ref. ChunksField_to_internal_value data = Inr ref \<longrightarrow> snd ref \<noteq> None"
    using ChunksField_carries_content by blast
  from gate unchanged unique [of uid] general reachable conflict field
  show ?thesis by (intro conjI) assumption+
qed

theorem etag_gate_witness:
  "length (filter (\<lambda>i. item_uid i = Some (vd_uid ex_vd_stale)) (items ex_s2)) \<le> 1
   \<and> vd_etag ex_vd_stale \<noteq> current_etag ex_s2 (vd_uid ex_vd_stale)
   \<and> CollectionItemSerializer_create True ex_vd_stale ex_s2
        = (Inl (ValidationError ''Wrong etag. Expected r2 got r0''), ex_s2)
   \<and> snd (CollectionItemSerializer_create True ex_vd_stale ex_s2) = ex_s2
   \<and> length (filter (\<lambda>i. item_uid i = Some (vd_uid ex_vd2)) (items ex_s1)) \<le> 1
   \<and> db_invariant ex_s1
   \<and> vd_etag ex_vd2 = current_etag ex_s1 (vd_uid ex_vd2)
   \<and> refs_resolve (chunks ex_s1) (rd_chunks_relation (vd_content ex_vd2))
   \<and> (\<exists>instance. fst (CollectionItemSerializer_create True ex_vd2 ex_s1) = Inr instance)
   \<and> fst (CollectionItemSerializer_create True ex_vd2 ex_s1) \<noteq> Inl (ValidationError [])
   \<and> list_all (\<lambda>r. snd r \<noteq> None) (rd_chunks_relation (vd_content ex_vd_again))
   \<and> vd_etag ex_vd_again = current_etag ex_s1 (vd_uid ex_vd_again)
   \<and> (\<exists>instance. fst (CollectionItemSerializer_create True ex_vd_again ex_s1) = Inr instance)
   \<and> vd_etag ex_vd_stale \<noteq> current_etag ex_s1 (vd_uid ex_vd_stale)
   \<and> CollectionItemSerializer_create True ex_vd_stale ex_s1
        = (Inl (ValidationError ''Wrong etag. Expected r1 got r0''), ex_s1)
   \<and> length (filter (\<lambda>i. item_uid i = Some ''item-a'') (items ex_s1)) \<le> 1
   \<and> ChunksField_to_internal_value [''c2'', ''Aw''] = Inr (''c2'', Some [3])
   \<and> ChunksField_to_internal_value [''c2''] = Inl IndexError"
proof -
  have le2: "length (filter (\<lambda>i. item_uid i = Some (vd_uid ex_vd_stale)) (items ex_s2)) \<le> 1"
    by code_simp
  have ne: "vd_etag ex_vd_stale \<noteq> current_etag ex_s2 (vd_uid ex_vd_stale)" by code_simp
  have msg: "wrong_etag (current_etag ex_s2 (vd_uid ex_vd_stale)) (vd_etag ex_vd_stale)
      = ValidationError ''Wrong etag. Expected r2 got r0''" by code_simp
  have le1: "length (filter (\<lambda>i. item_uid i = Some (vd_uid ex_vd2)) (items ex_s1)) \<le> 1"
    by code_simp
  have inv1: "db_invariant ex_s1" by code_simp
  have match: "vd_etag ex_vd2 = current_etag ex_s1 (vd_uid ex_vd2)" by code_simp
  have res: "refs_resolve (chunks ex_s1) (rd_chunks_relation (vd_content ex_vd2))" by code_simp
  have inline: "list_all (\<lambda>r. snd r \<noteq> None) (rd_chunks_relation (vd_content ex_vd_again))"
    by code_simp
  have again: "vd_etag ex_vd_again = current_etag ex_s1 (vd_uid ex_vd_again)" by code_simp
  have ne1: "vd_etag ex_vd_stale \<noteq> current_etag ex_s1 (vd_uid ex_vd_stale)" by code_simp
  have msg1: "wrong_etag (current_etag ex_s1 (vd_uid ex_vd_stale)) (vd_etag ex_vd_stale)
      = ValidationError ''Wrong etag. Expected r1 got r0''" by code_simp
  have field: "ChunksField_to_internal_value [''c2'', ''Aw''] = Inr (''c2'', Some [3])"
    "ChunksField_to_internal_value [''c2''] = Inl IndexError"
    by code_simp+
  note session = etag_gate [where s = ex_s1 and uid = "''item-a''"
      and requests = "[CollectionCreate ex_cvd, ItemUpsert True ex_vd]", folded ex_s1_def]
  from etag_gate [where vd = ex_vd_stale and s = ex_s2] le2 ne msg
  have stale: "CollectionItemSerializer_create True ex_vd_stale ex_s2
        = (Inl (ValidationError ''Wrong etag. Expected r2 got r0''), ex_s2)"
    by simp
  then have "fst (CollectionItemSerializer_create True ex_vd_stale ex_s2)
      = Inl (ValidationError ''Wrong etag. Expected r2 got r0'')" by simp
  with etag_gate [where vd = ex_vd_stale and s = ex_s2 and validate_etag = True]
  have un: "snd (CollectionItemSerializer_create True ex_vd_stale ex_s2) = ex_s2" by blast
  from session [where vd = ex_vd2] le1 inv1 match res
  have ok: "\<exists>instance. fst (CollectionItemSerializer_create True ex_vd2 ex_s1) = Inr instance"
    by blast
  from session [where vd = ex_vd2] le1 match
  have nv: "fst (CollectionItemSerializer_create True ex_vd2 ex_s1) \<noteq> Inl (ValidationError [])"
    by blast
  from session [where vd = ex_vd_again] inline again
  have ok2: "\<exists>instance. fst (CollectionItemSerializer_create True ex_vd_again ex_s1) = Inr instance"
    by blast
  from session [where vd = ex_vd_stale] ne1 msg1
  have conflict: "CollectionItemSerializer_create True ex_vd_stale ex_s1
        = (Inl (ValidationError ''Wrong etag. Expected r1 got r0''), ex_s1)"
    by simp
  from session [where vd = ex_vd2]
  have uq: "length (filter (\<lambda>i. item_uid i = Some ''item-a'') (items ex_s1)) \<le> 1"
    by blast
  from le2 ne stale un le1 inv1 match res ok nv inline again ok2 ne1 conflict uq field
  show ?thesis by simp
qed

subsection \<open>An upsert of an existing item\<close>

text \<open>
  C10. A successful upsert of a uid that an item row already has returns that row and
  leaves the item table as it was, whatever version, key or collection the request
  carries; collections, members and invitations are untouched; the revision table changes
  by the demotion of the item's first current revision and one appended current revision
  of the item; the new chunks are the request's uploads, the new links belong to the new
  revision, and one stoken is added. Under the invariant of the revision tables the
  demoted row is the only revision that changes.
\<close>

theorem upsert_keeps_existing_item:
  "(Some (vd_uid vd) \<in> item_uid ` set (items s)
      \<and> CollectionItemSerializer_create validate_etag vd s = (Inr result, s')
    \<longrightarrow> result \<in> set (items s) \<and> item_uid result = Some (vd_uid vd)
        \<and> items s' = items s \<and> collections s' = collections s
        \<and> members s' = members s \<and> invitations s' = invitations s
        \<and> (\<exists>old new added links.
               objects_first (is_current_of (item_id result)) (revisions s) = Some old
             \<and> revisions s' =
                 map (\<lambda>r. if rev_id r = rev_id old then old\<lparr>rev_current := None\<rparr> else r)
                   (revisions s) @ [new]
             \<and> rev_item new = item_id result \<and> rev_current new = Some True
             \<and> chunks s' = chunks s @ added
             \<and> map as_ref added = inline_refs (rd_chunks_relation (vd_content vd))
             \<and> relations s' = relations s @ links
             \<and> (\<forall>l \<in> set links. rel_revision l = rev_id new)
             \<and> stokens s' = stokens s @ [rev_stoken new]))
   \<and> (Some (vd_uid vd) \<in> item_uid ` set (items s) \<and> db_invariant s
      \<and> CollectionItemSerializer_create validate_etag vd s = (Inr result, s')
    \<longrightarrow> supersedes s s' (item_id result))"
proof -
  have *: "\<exists>s1 revision. result \<in> set (items s) \<and> item_uid result = Some (vd_uid vd)
        \<and> demote_current_revision result s = Inr s1
        \<and> process_revisions_for_item result (vd_content vd) s1 = Inr (revision, s')"
    if ex: "Some (vd_uid vd) \<in> item_uid ` set (items s)"
      and ok: "CollectionItemSerializer_create validate_etag vd s = (Inr result, s')"
  proof -
    from ok have body: "CollectionItemSerializer_create_body validate_etag vd s = Inr (result, s')"
      by (simp add: CollectionItemSerializer_create_def atomic_Inr)
    from ex have ne: "filter (\<lambda>i. item_uid i = Some (vd_uid vd)) (items s) \<noteq> []"
      by (auto simp: filter_empty_conv)
    from item_create_body_Inr [OF body] ne obtain s1 revision where
      f: "filter (\<lambda>i. item_uid i = Some (vd_uid vd)) (items s) = [result]"
      and d: "demote_current_revision result s = Inr s1"
      and p: "process_revisions_for_item result (vd_content vd) s1 = Inr (revision, s')"
      by blast
    from filter_singleton_mem [OF f] d p show ?thesis by blast
  qed
  show ?thesis
  proof (rule conjI; rule impI)
    assume a: "Some (vd_uid vd) \<in> item_uid ` set (items s)
      \<and> CollectionItemSerializer_create validate_etag vd s = (Inr result, s')"
    with * obtain s1 revision where
      r: "result \<in> set (items s)" "item_uid result = Some (vd_uid vd)"
      and d: "demote_current_revision result s = Inr s1"
      and p: "process_revisions_for_item result (vd_content vd) s1 = Inr (revision, s')"
      by blast
    from demote_current_revision_Inr [OF d] obtain old where
      old: "objects_first (is_current_of (item_id result)) (revisions s) = Some old"
      and s1: "s1 = s\<lparr>revisions := map (\<lambda>r. if rev_id r = rev_id old then old\<lparr>rev_current := None\<rparr> else r)
                                     (revisions s)\<rparr>"
      by blast
    from process_revisions_for_item_Inr [OF p] obtain chunks_objs added links where
      h: "s' = s1\<lparr>chunks := chunks s1 @ added, stokens := stokens s1 @ [new_pk (stokens s1)],
                  revisions := revisions s1 @ [revision], relations := relations s1 @ links\<rparr>"
         "revision = \<lparr>rev_id = new_pk (map rev_id (revisions s1)), rev_stoken = new_pk (stokens s1),
             rev_uid = rd_uid (vd_content vd), rev_item = item_id result, rev_meta = rd_meta (vd_content vd),
             rev_current = Some True, rev_deleted = rd_deleted (vd_content vd)\<rparr>"
         "map as_ref added = inline_refs (rd_chunks_relation (vd_content vd))"
         "\<forall>l \<in> set links. rel_revision l = rev_id revision"
      by blast
    have rv: "rev_item revision = item_id result" "rev_current revision = Some True"
      "rev_stoken revision = new_pk (stokens s)"
      by (subst h(2), simp add: s1)+
    have "\<exists>old new added links.
               objects_first (is_current_of (item_id result)) (revisions s) = Some old
             \<and> revisions s' =
                 map (\<lambda>r. if rev_id r = rev_id old then old\<lparr>rev_current := None\<rparr> else r)
                   (revisions s) @ [new]
             \<and> rev_item new = item_id result \<and> rev_current new = Some True
             \<and> chunks s' = chunks s @ added
             \<and> map as_ref added = inline_refs (rd_chunks_relation (vd_content vd))
             \<and> relations s' = relations s @ links
             \<and> (\<forall>l \<in> set links. rel_revision l = rev_id new)
             \<and> stokens s' = stokens s @ [rev_stoken new]"
      apply (rule exI [where x = old])
      apply (rule exI [where x = revision])
      apply (rule exI [where x = added])
      apply (rule exI [where x = links])
      using old h(3,4) rv by (simp add: h(1) s1)
    moreover have "items s' = items s \<and> collections s' = collections s
        \<and> members s' = members s \<and> invitations s' = invitations s"
      by (simp add: h(1) s1)
    ultimately show "result \<in> set (items s) \<and> item_uid result = Some (vd_uid vd)
        \<and> items s' = items s \<and> collections s' = collections s
        \<and> members s' = members s \<and> invitations s' = invitations s
        \<and> (\<exists>old new added links.
               objects_first (is_current_of (item_id result)) (revisions s) = Some old
             \<and> revisions s' =
                 map (\<lambda>r. if rev_id r = rev_id old then old\<lparr>rev_current := None\<rparr> else r)
                   (revisions s) @ [new]
             \<and> rev_item new = item_id result \<and> rev_current new = Some True
             \<and> chunks s' = chunks s @ added
             \<and> map as_ref added = inline_refs (rd_chunks_relation (vd_content vd))
             \<and> relations s' = relations s @ links
             \<and> (\<forall>l \<in> set links. rel_revision l = rev_id new)
             \<and> stokens s' = stokens s @ [rev_stoken new])"
      using r by simp
  next
    assume a: "Some (vd_uid vd) \<in> item_uid ` set (items s) \<and> db_invariant s
      \<and> CollectionItemSerializer_create validate_etag vd s = (Inr result, s')"
    with * obtain s1 revision where
      r: "result \<in> set (items s)"
      and d: "demote_current_revision result s = Inr s1"
      and p: "process_revisions_for_item result (vd_content vd) s1 = Inr (revision, s')"
      by blast
    from revision_of_existing_item [OF _ r d p] a show "supersedes s s' (item_id result)" by simp
  qed
qed

theorem upsert_keeps_existing_item_witness:
  "Some (vd_uid ex_vd2) \<in> item_uid ` set (items ex_s1) \<and> db_invariant ex_s1
   \<and> CollectionItemSerializer_create False ex_vd2 ex_s1 = (Inr ex_item_a, ex_s2)
   \<and> vd_version ex_vd2 \<noteq> item_version ex_item_a
   \<and> Some (vd_encryptionKey ex_vd2) \<noteq> item_encryptionKey ex_item_a
   \<and> vd_collection ex_vd2 \<noteq> item_collection ex_item_a
   \<and> ex_item_a \<in> set (items ex_s1) \<and> items ex_s2 = items ex_s1
   \<and> supersedes ex_s1 ex_s2 (item_id ex_item_a)"
proof -
  have ex: "Some (vd_uid ex_vd2) \<in> item_uid ` set (items ex_s1)" by code_simp
  have inv: "db_invariant ex_s1" by code_simp
  have ok: "CollectionItemSerializer_create False ex_vd2 ex_s1 = (Inr ex_item_a, ex_s2)" by code_simp
  have diff: "vd_version ex_vd2 \<noteq> item_version ex_item_a
     \<and> Some (vd_encryptionKey ex_vd2) \<noteq> item_encryptionKey ex_item_a
     \<and> vd_collection ex_vd2 \<noteq> item_collection ex_item_a"
    by (simp add: ex_vd2_def ex_item_a_def)
  note t = upsert_keeps_existing_item [of ex_vd2 ex_s1 False ex_item_a ex_s2]
  from t ex ok have "ex_item_a \<in> set (items ex_s1) \<and> items ex_s2 = items ex_s1" by blast
  moreover from t ex inv ok have "supersedes ex_s1 ex_s2 (item_id ex_item_a)" by blast
  ultimately show ?thesis using ex inv ok diff by simp
qed

subsection \<open>Creating a collection\<close>

lemma process_chunks_inline:
  "\<forall>r \<in> set refs. snd r \<noteq> None \<Longrightarrow> \<exists>res. process_chunks item refs objs s = Inr res"
proof (induction item refs objs s rule: process_chunks.induct)
  case (1 item chunks_objs s)
  then show ?case by simp
next
  case (2 item uid content rest chunks_objs s)
  from 2(2) have "\<forall>r \<in> set rest. snd r \<noteq> None" by simp
  from 2(1) [OF refl this] show ?case by (simp add: Let_def)
next
  case (3 item uid rest chunks_objs s)
  then show ?case by simp
qed

lemma process_revisions_for_item_inline:
  assumes "\<forall>r \<in> set (rd_chunks_relation rd). snd r \<noteq> None"
    and "\<forall>r \<in> set (revisions s). \<not> is_current_of (item_id item) r"
  shows "\<exists>res. process_revisions_for_item item rd s = Inr res"
proof -
  from process_chunks_inline [OF assms(1)] obtain objs s1 where
    pc: "process_chunks item (rd_chunks_relation rd) [] s = Inr (objs, s1)"
    by (metis surj_pair)
  from process_chunks_Inr [OF pc] obtain added where "s1 = s\<lparr>chunks := chunks s @ added\<rparr>"
    by blast
  then have "revisions s1 = revisions s" by simp
  with assms(2) have "\<not> (\<exists>r \<in> set (revisions s1). rev_item r = item_id item \<and> rev_current r = Some True)"
    by (simp add: is_current_of_def)
  then show ?thesis
    by (simp add: process_revisions_for_item_def pc Stoken_create_def Let_def
          CollectionItemRevision_create_def)
qed

text \<open>
  C6. \<open>CollectionSerializer.create\<close> with a non-null etag fails with the validation error
  and writes nothing, and any failed create writes nothing. A successful create had a
  null etag and adds exactly: the collection row; one item of that collection with null
  uid and null key; one revision, current, of that item; one membership of the owner in
  the collection, with level ADMIN, the given key and a stoken above every earlier one
  and above the revision's. On a database that keeps its invariants, a create with a null
  etag whose content is uploaded with the request succeeds.
\<close>

theorem collection_create_rows:
  "(cvd_etag vd \<noteq> None \<longrightarrow>
      CollectionSerializer_create vd s = (Inl (ValidationError ''Stoken is not None''), s))
   \<and> (\<forall>e. fst (CollectionSerializer_create vd s) = Inl e
         \<longrightarrow> snd (CollectionSerializer_create vd s) = s)
   \<and> (CollectionSerializer_create vd s = (Inr result, s') \<longrightarrow>
         cvd_etag vd = None
       \<and> result = \<lparr>coll_id = new_pk (map coll_id (collections s)), coll_uid = cvd_uid vd,
            coll_version = cvd_version vd, coll_owner = cvd_owner vd\<rparr>
       \<and> collections s' = collections s @ [result]
       \<and> (\<exists>main revision member.
              items s' = items s @ [main]
            \<and> main = \<lparr>item_id = new_pk (map item_id (items s)), item_uid = None,
                 item_version = cvd_version vd, item_encryptionKey = None,
                 item_collection = coll_id result\<rparr>
            \<and> revisions s' = revisions s @ [revision]
            \<and> rev_item revision = item_id main \<and> rev_current revision = Some True
            \<and> rev_uid revision = rd_uid (cvd_content vd)
            \<and> members s' = members s @ [member]
            \<and> member = \<lparr>member_id = new_pk (map member_id (members s)),
                 member_stoken = new_pk (stokens s @ [rev_stoken revision]),
                 member_collection = coll_id result, member_user = cvd_owner vd,
                 member_accessLevel = ADMIN, member_encryptionKey = cvd_encryptionKey vd\<rparr>
            \<and> stokens s' = stokens s @ [rev_stoken revision, member_stoken member]
            \<and> (\<forall>t \<in> set (stokens s). t < rev_stoken revision)
            \<and> rev_stoken revision < member_stoken member)
       \<and> invitations s' = invitations s)
   \<and> (cvd_etag vd = None \<and> db_invariant s \<and> members_of_collections s
        \<and> list_all (\<lambda>r. snd r \<noteq> None) (rd_chunks_relation (cvd_content vd))
      \<longrightarrow> (\<exists>result s'. CollectionSerializer_create vd s = (Inr result, s')))"
proof (intro conjI)
  show "cvd_etag vd \<noteq> None \<longrightarrow>
      CollectionSerializer_create vd s = (Inl (ValidationError ''Stoken is not None''), s)"
    by (simp add: CollectionSerializer_create_def atomic_def CollectionSerializer_create_body_unfold)
  show "\<forall>e. fst (CollectionSerializer_create vd s) = Inl e
         \<longrightarrow> snd (CollectionSerializer_create vd s) = s"
    unfolding CollectionSerializer_create_def by (blast intro: atomic_failed_unchanged)
next
  let ?new = "new_pk (map coll_id (collections s))"
  let ?main = "\<lparr>item_id = new_pk (map item_id (items s)), item_uid = None,
            item_version = cvd_version vd, item_encryptionKey = None, item_collection = ?new\<rparr>"
  show "CollectionSerializer_create vd s = (Inr result, s') \<longrightarrow>
         cvd_etag vd = None
       \<and> result = \<lparr>coll_id = new_pk (map coll_id (collections s)), coll_uid = cvd_uid vd,
            coll_version = cvd_version vd, coll_owner = cvd_owner vd\<rparr>
       \<and> collections s' = collections s @ [result]
       \<and> (\<exists>main revision member.
              items s' = items s @ [main]
            \<and> main = \<lparr>item_id = new_pk (map item_id (items s)), item_uid = None,
                 item_version = cvd_version vd, item_encryptionKey = None,
                 item_collection = coll_id result\<rparr>
            \<and> revisions s' = revisions s @ [revision]
            \<and> rev_item revision = item_id main \<and> rev_current revision = Some True
            \<and> rev_uid revision = rd_uid (cvd_content vd)
            \<and> members s' = members s @ [member]
            \<and> member = \<lparr>member_id = new_pk (map member_id (members s)),
                 member_stoken = new_pk (stokens s @ [rev_stoken revision]),
                 member_collection = coll_id result, member_user = cvd_owner vd,
                 member_accessLevel = ADMIN, member_encryptionKey = cvd_encryptionKey vd\<rparr>
            \<and> stokens s' = stokens s @ [rev_stoken revision, member_stoken member]
            \<and> (\<forall>t \<in> set (stokens s). t < rev_stoken revision)
            \<and> rev_stoken revision < member_stoken member)
       \<and> invitations s' = invitations s"
  proof
    assume "CollectionSerializer_create vd s = (Inr result, s')"
    then have "CollectionSerializer_create_body vd s = Inr (result, s')"
      by (simp add: CollectionSerializer_create_def atomic_Inr)
    then obtain revision s3 where
      e: "cvd_etag vd = None"
      and res: "result = \<lparr>coll_id = ?new, coll_uid = cvd_uid vd,
           coll_version = cvd_version vd, coll_owner = cvd_owner vd\<rparr>"
      and p: "process_revisions_for_item ?main (cvd_content vd)
           (s\<lparr>collections := collections s @ [result], items := items s @ [?main]\<rparr>) = Inr (revision, s3)"
      and m: "CollectionMember_save
           \<lparr>member_id = new_pk (map member_id (members s3)), member_stoken = new_pk (stokens s3),
            member_collection = ?new, member_user = cvd_owner vd,
            member_accessLevel = ADMIN, member_encryptionKey = cvd_encryptionKey vd\<rparr>
           (s3\<lparr>stokens := stokens s3 @ [new_pk (stokens s3)]\<rparr>) = Inr s'"
      by (rule collection_create_body_Inr)
    let ?s2 = "s\<lparr>collections := collections s @ [result], items := items s @ [?main]\<rparr>"
    from process_revisions_for_item_Inr [OF p] obtain chunks_objs added links where
      h: "s3 = ?s2\<lparr>chunks := chunks ?s2 @ added, stokens := stokens ?s2 @ [new_pk (stokens ?s2)],
                  revisions := revisions ?s2 @ [revision], relations := relations ?s2 @ links\<rparr>"
         "revision = \<lparr>rev_id = new_pk (map rev_id (revisions ?s2)), rev_stoken = new_pk (stokens ?s2),
             rev_uid = rd_uid (cvd_content vd), rev_item = item_id ?main, rev_meta = rd_meta (cvd_content vd),
             rev_current = Some True, rev_deleted = rd_deleted (cvd_content vd)\<rparr>"
      by blast
    have rv: "rev_item revision = item_id ?main" "rev_current revision = Some True"
      "rev_stoken revision = new_pk (stokens s)" "rev_uid revision = rd_uid (cvd_content vd)"
      by (subst h(2), simp)+
    have s3: "members s3 = members s" "stokens s3 = stokens s @ [rev_stoken revision]"
      "items s3 = items s @ [?main]" "revisions s3 = revisions s @ [revision]"
      "collections s3 = collections s @ [result]" "invitations s3 = invitations s"
      by (simp_all add: h(1) rv(3))
    let ?member = "\<lparr>member_id = new_pk (map member_id (members s)),
                 member_stoken = new_pk (stokens s @ [rev_stoken revision]),
                 member_collection = ?new, member_user = cvd_owner vd,
                 member_accessLevel = ADMIN, member_encryptionKey = cvd_encryptionKey vd\<rparr>"
    from m have m': "CollectionMember_save ?member (s3\<lparr>stokens := stokens s3 @ [new_pk (stokens s3)]\<rparr>) = Inr s'"
      by (simp only: s3)
    have notin: "member_id ?member \<notin> set (map member_id (members (s3\<lparr>stokens := stokens s3 @ [new_pk (stokens s3)]\<rparr>)))"
      using new_pk_notin [of "map member_id (members s)"] by (simp add: s3)
    have s': "s' = s3\<lparr>stokens := stokens s3 @ [new_pk (stokens s3)], members := members s @ [?member]\<rparr>"
      using CollectionMember_save_Inr(1) [OF m'] notin by (simp add: s3(1))
    have cid: "coll_id result = ?new" by (subst res) simp
    have lt: "rev_stoken revision < new_pk (stokens s @ [rev_stoken revision])"
      by (rule new_pk_fresh) simp
    have fresh: "\<forall>t \<in> set (stokens s). t < rev_stoken revision"
      by (simp add: rv(3) new_pk_fresh)
    have "\<exists>main revision member.
              items s' = items s @ [main]
            \<and> main = \<lparr>item_id = new_pk (map item_id (items s)), item_uid = None,
                 item_version = cvd_version vd, item_encryptionKey = None,
                 item_collection = coll_id result\<rparr>
            \<and> revisions s' = revisions s @ [revision]
            \<and> rev_item revision = item_id main \<and> rev_current revision = Some True
            \<and> rev_uid revision = rd_uid (cvd_content vd)
            \<and> members s' = members s @ [member]
            \<and> member = \<lparr>member_id = new_pk (map member_id (members s)),
                 member_stoken = new_pk (stokens s @ [rev_stoken revision]),
                 member_collection = coll_id result, member_user = cvd_owner vd,
                 member_accessLevel = ADMIN, member_encryptionKey = cvd_encryptionKey vd\<rparr>
            \<and> stokens s' = stokens s @ [rev_stoken revision, member_stoken member]
            \<and> (\<forall>t \<in> set (stokens s). t < rev_stoken revision)
            \<and> rev_stoken revision < member_stoken member"
      apply (rule exI [where x = ?main])
      apply (rule exI [where x = revision])
      apply (rule exI [where x = ?member])
      using rv(1,2,4) lt fresh by (simp add: s' s3 cid)
    moreover have "collections s' = collections s @ [result] \<and> invitations s' = invitations s"
      by (simp add: s' s3)
    ultimately show "cvd_etag vd = None
       \<and> result = \<lparr>coll_id = new_pk (map coll_id (collections s)), coll_uid = cvd_uid vd,
            coll_version = cvd_version vd, coll_owner = cvd_owner vd\<rparr>
       \<and> collections s' = collections s @ [result]
       \<and> (\<exists>main revision member.
              items s' = items s @ [main]
            \<and> main = \<lparr>item_id = new_pk (map item_id (items s)), item_uid = None,
                 item_version = cvd_version vd, item_encryptionKey = None,
                 item_collection = coll_id result\<rparr>
            \<and> revisions s' = revisions s @ [revision]
            \<and> rev_item revision = item_id main \<and> rev_current revision = Some True
            \<and> rev_uid revision = rd_uid (cvd_content vd)
            \<and> members s' = members s @ [member]
            \<and> member = \<lparr>member_id = new_pk (map member_id (members s)),
                 member_stoken = new_pk (stokens s @ [rev_stoken revision]),
                 member_collection = coll_id result, member_user = cvd_owner vd,
                 member_accessLevel = ADMIN, member_encryptionKey = cvd_encryptionKey vd\<rparr>
            \<and> stokens s' = stokens s @ [rev_stoken revision, member_stoken member]
            \<and> (\<forall>t \<in> set (stokens s). t < rev_stoken revision)
            \<and> rev_stoken revision < member_stoken member)
       \<and> invitations s' = invitations s"
      using e res by simp
  qed
next
  let ?new = "new_pk (map coll_id (collections s))"
  let ?inst = "\<lparr>coll_id = ?new, coll_uid = cvd_uid vd,
           coll_version = cvd_version vd, coll_owner = cvd_owner vd\<rparr>"
  let ?main = "\<lparr>item_id = new_pk (map item_id (items s)), item_uid = None,
            item_version = cvd_version vd, item_encryptionKey = None, item_collection = ?new\<rparr>"
  let ?s2 = "s\<lparr>collections := collections s @ [?inst], items := items s @ [?main]\<rparr>"
  show "cvd_etag vd = None \<and> db_invariant s \<and> members_of_collections s
        \<and> list_all (\<lambda>r. snd r \<noteq> None) (rd_chunks_relation (cvd_content vd))
      \<longrightarrow> (\<exists>result s'. CollectionSerializer_create vd s = (Inr result, s'))"
  proof
    assume a: "cvd_etag vd = None \<and> db_invariant s \<and> members_of_collections s
        \<and> list_all (\<lambda>r. snd r \<noteq> None) (rd_chunks_relation (cvd_content vd))"
    then have inv: "db_invariant s" and moc: "members_of_collections s"
      and inl: "\<forall>r \<in> set (rd_chunks_relation (cvd_content vd)). snd r \<noteq> None"
      by (simp_all add: list_all_iff)
    have nocur: "\<forall>r \<in> set (revisions ?s2). \<not> is_current_of (item_id ?main) r"
    proof
      fix r assume "r \<in> set (revisions ?s2)"
      then have "rev_item r \<in> item_id ` set (items s)"
        using db_invariantD(2) [OF inv] by simp
      moreover have "new_pk (map item_id (items s)) \<notin> item_id ` set (items s)"
        using new_pk_notin [of "map item_id (items s)"] by simp
      ultimately show "\<not> is_current_of (item_id ?main) r"
        by (auto simp: is_current_of_def)
    qed
    from process_revisions_for_item_inline [OF inl nocur] obtain revision s3 where
      p: "process_revisions_for_item ?main (cvd_content vd) ?s2 = Inr (revision, s3)"
      by (metis surj_pair)
    from process_revisions_for_item_Inr [OF p] obtain chunks_objs added links where
      h: "s3 = ?s2\<lparr>chunks := chunks ?s2 @ added, stokens := stokens ?s2 @ [new_pk (stokens ?s2)],
                  revisions := revisions ?s2 @ [revision], relations := relations ?s2 @ links\<rparr>"
      by blast
    have ms: "members s3 = members s" by (simp add: h)
    have "member_collection m \<noteq> ?new" if "m \<in> set (members s)" for m
    proof -
      from moc that have "member_collection m \<in> set (map coll_id (collections s))"
        by (simp add: members_of_collections_def list_all_iff)
      with new_pk_notin [of "map coll_id (collections s)"] show ?thesis by metis
    qed
    then have "\<not> (\<exists>m' \<in> set (members s). member_collection m' = ?new)" by blast
    then have "\<exists>s5. CollectionMember_save
           \<lparr>member_id = new_pk (map member_id (members s3)), member_stoken = new_pk (stokens s3),
            member_collection = ?new, member_user = cvd_owner vd,
            member_accessLevel = ADMIN, member_encryptionKey = cvd_encryptionKey vd\<rparr>
           (s3\<lparr>stokens := stokens s3 @ [new_pk (stokens s3)]\<rparr>) = Inr s5"
      by (simp add: CollectionMember_save_def ms)
    then obtain s5 where "CollectionMember_save
           \<lparr>member_id = new_pk (map member_id (members s3)), member_stoken = new_pk (stokens s3),
            member_collection = ?new, member_user = cvd_owner vd,
            member_accessLevel = ADMIN, member_encryptionKey = cvd_encryptionKey vd\<rparr>
           (s3\<lparr>stokens := stokens s3 @ [new_pk (stokens s3)]\<rparr>) = Inr s5" ..
    with a p have "CollectionSerializer_create_body vd s = Inr (?inst, s5)"
      by (simp add: CollectionSerializer_create_body_unfold)
    then show "\<exists>result s'. CollectionSerializer_create vd s = (Inr result, s')"
      by (simp add: CollectionSerializer_create_def atomic_def)
  qed
qed

theorem collection_create_rows_witness:
  "cvd_etag ex_cvd_etag \<noteq> None
   \<and> CollectionSerializer_create ex_cvd_etag ex_s1 = (Inl (ValidationError ''Stoken is not None''), ex_s1)
   \<and> snd (CollectionSerializer_create ex_cvd_etag ex_s1) = ex_s1
   \<and> CollectionSerializer_create ex_cvd empty_db = (Inr ex_coll, ex_s0)
   \<and> collections ex_s0 = collections empty_db @ [ex_coll]
   \<and> items ex_s0 = [ex_main_item]
   \<and> cvd_etag ex_cvd = None \<and> db_invariant empty_db \<and> members_of_collections empty_db
   \<and> list_all (\<lambda>r. snd r \<noteq> None) (rd_chunks_relation (cvd_content ex_cvd))
   \<and> (\<exists>result s'. CollectionSerializer_create ex_cvd empty_db = (Inr result, s'))"
proof -
  have e: "cvd_etag ex_cvd_etag \<noteq> None" by code_simp
  have ok: "CollectionSerializer_create ex_cvd empty_db = (Inr ex_coll, ex_s0)" by code_simp
  have pre: "cvd_etag ex_cvd = None \<and> db_invariant empty_db \<and> members_of_collections empty_db
     \<and> list_all (\<lambda>r. snd r \<noteq> None) (rd_chunks_relation (cvd_content ex_cvd))" by code_simp
  have its: "items ex_s0 = [ex_main_item]" by code_simp
  note t1 = collection_create_rows [of ex_cvd_etag ex_s1]
  note t2 = collection_create_rows [of ex_cvd empty_db ex_coll ex_s0]
  from t1 e have f: "CollectionSerializer_create ex_cvd_etag ex_s1
      = (Inl (ValidationError ''Stoken is not None''), ex_s1)" by blast
  then have "fst (CollectionSerializer_create ex_cvd_etag ex_s1) = Inl (ValidationError ''Stoken is not None'')"
    by simp
  with t1 have u: "snd (CollectionSerializer_create ex_cvd_etag ex_s1) = ex_s1" by blast
  from t2 ok have c: "collections ex_s0 = collections empty_db @ [ex_coll]" by blast
  from t2 pre have s: "\<exists>result s'. CollectionSerializer_create ex_cvd empty_db = (Inr result, s')"
    by blast
  from e f u ok c its pre s show ?thesis by simp
qed

subsection \<open>Accepting an invitation\<close>

text \<open>
  C7. A successful accept adds one membership with the invitation's collection, user and
  access level, the caller's key and a stoken above every earlier one, deletes the
  invitation row and changes nothing else. When the invited user already has a
  membership in the collection the accept fails with \<open>IntegrityError\<close> and the database is
  as before; otherwise it succeeds.
\<close>

theorem accept_invitation:
  "(InvitationAcceptSerializer_create invitation encryption_key s = (Inr member, s') \<longrightarrow>
       member = \<lparr>member_id = new_pk (map member_id (members s)), member_stoken = new_pk (stokens s),
          member_collection = inv_collection invitation, member_user = inv_user invitation,
          member_accessLevel = inv_accessLevel invitation, member_encryptionKey = encryption_key\<rparr>
     \<and> (\<forall>t \<in> set (stokens s). t < member_stoken member)
     \<and> s' = s\<lparr>stokens := stokens s @ [member_stoken member], members := members s @ [member],
            invitations := filter (\<lambda>i. inv_id i \<noteq> inv_id invitation) (invitations s)\<rparr>)
   \<and> ((\<exists>m \<in> set (members s). member_collection m = inv_collection invitation
                           \<and> member_user m = inv_user invitation)
      \<longrightarrow> InvitationAcceptSerializer_create invitation encryption_key s = (Inl IntegrityError, s))
   \<and> (\<not> (\<exists>m \<in> set (members s). member_collection m = inv_collection invitation
                           \<and> member_user m = inv_user invitation)
      \<longrightarrow> (\<exists>member s'. InvitationAcceptSerializer_create invitation encryption_key s = (Inr member, s')))"
proof -
  let ?m = "\<lparr>member_id = new_pk (map member_id (members s)), member_stoken = new_pk (stokens s),
          member_collection = inv_collection invitation, member_user = inv_user invitation,
          member_accessLevel = inv_accessLevel invitation, member_encryptionKey = encryption_key\<rparr>"
  let ?s1 = "s\<lparr>stokens := stokens s @ [new_pk (stokens s)]\<rparr>"
  let ?clash = "\<exists>m \<in> set (members s). member_collection m = inv_collection invitation
                           \<and> member_user m = inv_user invitation"
  have fresh: "member_id m \<noteq> new_pk (map member_id (members s))" if "m \<in> set (members s)" for m
    using new_pk_fresh [of "member_id m" "map member_id (members s)"] that by simp
  have notin: "new_pk (map member_id (members s)) \<notin> member_id ` set (members s)"
    using new_pk_notin [of "map member_id (members s)"] by simp
  have body: "InvitationAcceptSerializer_create_body invitation encryption_key s =
      (case CollectionMember_save ?m ?s1 of
         Inl e \<Rightarrow> Inl e
       | Inr s2 \<Rightarrow> Inr (?m, s2\<lparr>invitations := filter (\<lambda>i. inv_id i \<noteq> inv_id invitation) (invitations s2)\<rparr>))"
    by (simp add: InvitationAcceptSerializer_create_body_def Stoken_create_def Let_def
          cong: sum.case_cong)
  have save: "CollectionMember_save ?m ?s1 =
      (if ?clash then Inl IntegrityError else Inr (?s1\<lparr>members := members s @ [?m]\<rparr>))"
    using fresh notin by (auto simp: CollectionMember_save_def)
  have all: "InvitationAcceptSerializer_create invitation encryption_key s =
      (if ?clash then (Inl IntegrityError, s)
       else (Inr ?m, s\<lparr>stokens := stokens s @ [new_pk (stokens s)], members := members s @ [?m],
            invitations := filter (\<lambda>i. inv_id i \<noteq> inv_id invitation) (invitations s)\<rparr>))"
    by (simp add: InvitationAcceptSerializer_create_def atomic_def body save)
  show ?thesis
  proof (intro conjI impI)
    assume ok: "InvitationAcceptSerializer_create invitation encryption_key s = (Inr member, s')"
    then have nc: "\<not> ?clash" by (auto simp: all split: if_splits)
    with ok have m: "member = ?m"
      and s': "s' = s\<lparr>stokens := stokens s @ [new_pk (stokens s)], members := members s @ [?m],
            invitations := filter (\<lambda>i. inv_id i \<noteq> inv_id invitation) (invitations s)\<rparr>"
      by (auto simp: all)
    show "member = ?m" by (rule m)
    have st: "member_stoken member = new_pk (stokens s)" by (simp add: m)
    show "\<forall>t \<in> set (stokens s). t < member_stoken member"
      by (simp add: st new_pk_fresh)
    show "s' = s\<lparr>stokens := stokens s @ [member_stoken member], members := members s @ [member],
            invitations := filter (\<lambda>i. inv_id i \<noteq> inv_id invitation) (invitations s)\<rparr>"
      by (simp add: s' m)
  next
    assume ?clash
    then show "InvitationAcceptSerializer_create invitation encryption_key s = (Inl IntegrityError, s)"
      by (simp only: all if_True)
  next
    assume "\<not> ?clash"
    then show "\<exists>member s'. InvitationAcceptSerializer_create invitation encryption_key s = (Inr member, s')"
      by (simp only: all if_False) blast
  qed
qed

theorem accept_invitation_witness:
  "InvitationAcceptSerializer_create ex_invitation [12] ex_s_invited = (Inr ex_member_bob, ex_s_accepted)
   \<and> invitations ex_s_invited = [ex_invitation]
   \<and> ex_s_accepted = ex_s_invited\<lparr>stokens := stokens ex_s_invited @ [member_stoken ex_member_bob],
         members := members ex_s_invited @ [ex_member_bob],
         invitations := filter (\<lambda>i. inv_id i \<noteq> inv_id ex_invitation) (invitations ex_s_invited)\<rparr>
   \<and> invitations ex_s_accepted = []
   \<and> (\<exists>m \<in> set (members ex_s_accepted). member_collection m = inv_collection ex_invitation
                           \<and> member_user m = inv_user ex_invitation)
   \<and> InvitationAcceptSerializer_create ex_invitation [13] ex_s_accepted = (Inl IntegrityError, ex_s_accepted)
   \<and> \<not> (\<exists>m \<in> set (members ex_s_invited). member_collection m = inv_collection ex_invitation
                           \<and> member_user m = inv_user ex_invitation)
   \<and> (\<exists>member s'. InvitationAcceptSerializer_create ex_invitation [14] ex_s_invited = (Inr member, s'))"
proof -
  have ok: "InvitationAcceptSerializer_create ex_invitation [12] ex_s_invited = (Inr ex_member_bob, ex_s_accepted)"
    by code_simp
  have invs: "invitations ex_s_invited = [ex_invitation]" "invitations ex_s_accepted = []"
    by code_simp+
  have clash: "\<exists>m \<in> set (members ex_s_accepted). member_collection m = inv_collection ex_invitation
                           \<and> member_user m = inv_user ex_invitation"
    by code_simp
  have noclash: "\<not> (\<exists>m \<in> set (members ex_s_invited). member_collection m = inv_collection ex_invitation
                           \<and> member_user m = inv_user ex_invitation)"
    by code_simp
  from accept_invitation [of ex_invitation "[12]" ex_s_invited ex_member_bob ex_s_accepted] ok
  have s': "ex_s_accepted = ex_s_invited\<lparr>stokens := stokens ex_s_invited @ [member_stoken ex_member_bob],
         members := members ex_s_invited @ [ex_member_bob],
         invitations := filter (\<lambda>i. inv_id i \<noteq> inv_id ex_invitation) (invitations ex_s_invited)\<rparr>"
    by blast
  from accept_invitation [of ex_invitation "[13]" ex_s_accepted] clash
  have dup: "InvitationAcceptSerializer_create ex_invitation [13] ex_s_accepted = (Inl IntegrityError, ex_s_accepted)"
    by blast
  from accept_invitation [of ex_invitation "[14]" ex_s_invited] noclash
  have again: "\<exists>member s'. InvitationAcceptSerializer_create ex_invitation [14] ex_s_invited = (Inr member, s')"
    by blast
  from ok invs s' clash dup noclash again show ?thesis by blast
qed

subsection \<open>Issuing an invitation\<close>

text \<open>
  C8, where the code departs from it. \<open>validate_user\<close> never raises the validation error:
  the requesting user is a user object, and it is compared with a lowered string, or
  lowering fails on a user object. \<open>create\<close> has no check of its own: alice, a member
  of the collection, invites alice, and the invitation row is written. An invite either
  fails and changes nothing, or appends one invitation row, records its key as the last
  one issued and changes nothing else; no stoken is allocated.
\<close>

theorem self_invite_not_rejected:
  "validate_user request_user v \<noteq> Inl (ValidationError msg)
   \<and> validate_user ''alice'' (PyStr ''alice'') = Inr (PyStr ''alice'')
   \<and> validate_user ''alice'' (PyUser ''alice'') = Inl AttributeError
   \<and> ivd_user ex_ivd_self = ''alice''
   \<and> objects_get (\<lambda>m. member_collection m = coll_id (ivd_collection ex_ivd_self) \<and> member_user m = ''alice'')
        (members ex_s1) = Inr ex_member_alice
   \<and> CollectionInvitationSerializer_create ''alice'' ex_ivd_self ex_s1
        = (Inr ex_self_invitation, ex_s1\<lparr>invitations := [ex_self_invitation], last_invitation_id := 1\<rparr>)
   \<and> inv_user ex_self_invitation = member_user ex_member_alice
   \<and> inv_fromMember ex_self_invitation = member_id ex_member_alice
   \<and> ((\<exists>e. CollectionInvitationSerializer_create u vd s = (Inl e, s))
      \<or> (\<exists>invitation. CollectionInvitationSerializer_create u vd s
            = (Inr invitation, s\<lparr>invitations := invitations s @ [invitation],
                                 last_invitation_id := inv_id invitation\<rparr>)))"
proof -
  have "validate_user request_user v \<noteq> Inl (ValidationError msg)"
    by (cases v) (simp_all add: validate_user_def py_lower_def)
  moreover have "(\<exists>e. CollectionInvitationSerializer_create u vd s = (Inl e, s))
      \<or> (\<exists>invitation. CollectionInvitationSerializer_create u vd s
            = (Inr invitation, s\<lparr>invitations := invitations s @ [invitation],
                                 last_invitation_id := inv_id invitation\<rparr>))"
    by (cases "objects_get (\<lambda>m. member_collection m = coll_id (ivd_collection vd) \<and> member_user m = u) (members s)")
       (simp_all add: CollectionInvitationSerializer_create_def atomic_def Let_def)
  moreover have "validate_user ''alice'' (PyStr ''alice'') = Inr (PyStr ''alice'')
   \<and> validate_user ''alice'' (PyUser ''alice'') = Inl AttributeError
   \<and> ivd_user ex_ivd_self = ''alice''
   \<and> objects_get (\<lambda>m. member_collection m = coll_id (ivd_collection ex_ivd_self) \<and> member_user m = ''alice'')
        (members ex_s1) = Inr ex_member_alice
   \<and> CollectionInvitationSerializer_create ''alice'' ex_ivd_self ex_s1
        = (Inr ex_self_invitation, ex_s1\<lparr>invitations := [ex_self_invitation], last_invitation_id := 1\<rparr>)
   \<and> inv_user ex_self_invitation = member_user ex_member_alice
   \<and> inv_fromMember ex_self_invitation = member_id ex_member_alice"
    by code_simp
  ultimately show ?thesis by blast
qed

subsection \<open>Stokens\<close>

lemma stokens_grow_iff:
  "stokens_grow s s' \<longleftrightarrow>
     (\<exists>ts. stokens s' = stokens s @ ts \<and> sorted_wrt (<) ts
        \<and> (\<forall>t \<in> set ts. \<forall>u \<in> set (stokens s). u < t))"
proof
  assume g: "stokens_grow s s'"
  then have t: "take (length (stokens s)) (stokens s') = stokens s"
    by (simp add: stokens_grow_def Let_def)
  have "stokens s' = take (length (stokens s)) (stokens s') @ drop (length (stokens s)) (stokens s')"
    by simp
  with t have "stokens s' = stokens s @ drop (length (stokens s)) (stokens s')" by simp
  moreover from g have "sorted_wrt (<) (drop (length (stokens s)) (stokens s'))"
    and "\<forall>t \<in> set (drop (length (stokens s)) (stokens s')). \<forall>u \<in> set (stokens s). u < t"
    by (simp_all add: stokens_grow_def Let_def list_all_iff)
  ultimately have "stokens s' = stokens s @ drop (length (stokens s)) (stokens s')
      \<and> sorted_wrt (<) (drop (length (stokens s)) (stokens s'))
      \<and> (\<forall>t \<in> set (drop (length (stokens s)) (stokens s')). \<forall>u \<in> set (stokens s). u < t)"
    by simp
  then show "\<exists>ts. stokens s' = stokens s @ ts \<and> sorted_wrt (<) ts
        \<and> (\<forall>t \<in> set ts. \<forall>u \<in> set (stokens s). u < t)"
    by blast
next
  assume "\<exists>ts. stokens s' = stokens s @ ts \<and> sorted_wrt (<) ts
        \<and> (\<forall>t \<in> set ts. \<forall>u \<in> set (stokens s). u < t)"
  then show "stokens_grow s s'"
    by (auto simp: stokens_grow_def Let_def list_all_iff)
qed

lemma stokens_grow_refl: "stokens_grow s s"
  by (simp add: stokens_grow_iff)

lemma stokens_grow_one:
  "stokens s' = stokens s @ [new_pk (stokens s)] \<Longrightarrow> stokens_grow s s'"
  by (simp add: stokens_grow_iff new_pk_fresh)

lemma stokens_grow_two:
  assumes "stokens s' = stokens s @ [new_pk (stokens s), new_pk (stokens s @ [new_pk (stokens s)])]"
  shows "stokens_grow s s'"
proof -
  have "new_pk (stokens s) < new_pk (stokens s @ [new_pk (stokens s)])"
    by (rule new_pk_fresh) simp
  moreover have "\<forall>u \<in> set (stokens s). u < new_pk (stokens s @ [new_pk (stokens s)])"
    by (simp add: new_pk_fresh)
  ultimately show ?thesis using assms by (simp add: stokens_grow_iff new_pk_fresh)
qed

lemma stokens_grow_sorted:
  assumes "sorted_wrt (<) (stokens s)" and "stokens_grow s s'"
  shows "sorted_wrt (<) (stokens s')"
  using assms by (auto simp: stokens_grow_iff sorted_wrt_append)

lemma demote_stokens: "demote_current_revision item s = Inr s1 \<Longrightarrow> stokens s1 = stokens s"
  by (auto dest!: demote_current_revision_Inr)

lemma process_stokens:
  "process_revisions_for_item item rd s = Inr (revision, s')
   \<Longrightarrow> stokens s' = stokens s @ [new_pk (stokens s)] \<and> rev_stoken revision = new_pk (stokens s)"
  by (auto dest!: process_revisions_for_item_Inr)

lemma member_update_shape:
  "(member_accessLevel m = level
      \<and> CollectionMemberSerializer_update m level s = (Inr m, s))
   \<or> (member_accessLevel m \<noteq> level
      \<and> (\<exists>e. CollectionMemberSerializer_update m level s = (Inl e, s)))
   \<or> (member_accessLevel m \<noteq> level
      \<and> (\<exists>s'. CollectionMemberSerializer_update m level s
             = (Inr (m\<lparr>member_stoken := new_pk (stokens s), member_accessLevel := level\<rparr>), s')
          \<and> stokens s' = stokens s @ [new_pk (stokens s)]
          \<and> m\<lparr>member_stoken := new_pk (stokens s), member_accessLevel := level\<rparr> \<in> set (members s')))"
proof (cases "member_accessLevel m = level")
  case True
  then show ?thesis
    by (simp add: CollectionMemberSerializer_update_def CollectionMemberSerializer_update_body_def atomic_def)
next
  case False
  let ?m' = "m\<lparr>member_stoken := new_pk (stokens s), member_accessLevel := level\<rparr>"
  let ?s1 = "s\<lparr>stokens := stokens s @ [new_pk (stokens s)]\<rparr>"
  show ?thesis
  proof (cases "CollectionMember_save ?m' ?s1")
    case (Inl e)
    with False show ?thesis
      by (simp add: CollectionMemberSerializer_update_def CollectionMemberSerializer_update_body_def
            atomic_def Stoken_create_def Let_def)
  next
    case (Inr s2)
    have st: "stokens s2 = stokens s @ [new_pk (stokens s)]"
      by (subst CollectionMember_save_Inr(1) [OF Inr]) simp
    have mem: "?m' \<in> set (members s2)"
      by (subst CollectionMember_save_Inr(1) [OF Inr]) auto
    from False Inr have "CollectionMemberSerializer_update m level s = (Inr ?m', s2)"
      by (simp add: CollectionMemberSerializer_update_def CollectionMemberSerializer_update_body_def
            atomic_def Stoken_create_def Let_def)
    with False st mem show ?thesis by blast
  qed
qed

lemma step_stokens_grow: "stokens_grow s (step request s)"
proof (cases request)
  case (ItemUpsert validate_etag vd)
  show ?thesis
  proof (cases rule: atomic_cases [of "CollectionItemSerializer_create_body validate_etag vd" s])
    case (failed e)
    with ItemUpsert show ?thesis by (simp add: CollectionItemSerializer_create_def stokens_grow_refl)
  next
    case (committed v s')
    from item_create_body_Inr [OF committed(1)]
    have "stokens s' = stokens s @ [new_pk (stokens s)]"
      by (elim disjE conjE exE) (auto dest!: process_stokens demote_stokens)
    with committed(2) ItemUpsert show ?thesis
      by (simp add: CollectionItemSerializer_create_def stokens_grow_one)
  qed
next
  case (CollectionCreate vd)
  show ?thesis
  proof (cases rule: atomic_cases [of "CollectionSerializer_create_body vd" s])
    case (failed e)
    with CollectionCreate show ?thesis by (simp add: CollectionSerializer_create_def stokens_grow_refl)
  next
    case (committed v s')
    from committed(1) obtain revision s3 where
      p: "process_revisions_for_item
           \<lparr>item_id = new_pk (map item_id (items s)), item_uid = None,
            item_version = cvd_version vd, item_encryptionKey = None,
            item_collection = new_pk (map coll_id (collections s))\<rparr>
           (cvd_content vd)
           (s\<lparr>collections := collections s @ [v],
              items := items s @ [\<lparr>item_id = new_pk (map item_id (items s)), item_uid = None,
                 item_version = cvd_version vd, item_encryptionKey = None,
                 item_collection = new_pk (map coll_id (collections s))\<rparr>]\<rparr>) = Inr (revision, s3)"
      and m: "CollectionMember_save
           \<lparr>member_id = new_pk (map member_id (members s3)), member_stoken = new_pk (stokens s3),
            member_collection = new_pk (map coll_id (collections s)), member_user = cvd_owner vd,
            member_accessLevel = ADMIN, member_encryptionKey = cvd_encryptionKey vd\<rparr>
           (s3\<lparr>stokens := stokens s3 @ [new_pk (stokens s3)]\<rparr>) = Inr s'"
      by (rule collection_create_body_Inr)
    from process_stokens [OF p] have s3: "stokens s3 = stokens s @ [new_pk (stokens s)]" by simp
    have "stokens s' = stokens s3 @ [new_pk (stokens s3)]"
      by (subst CollectionMember_save_Inr(1) [OF m]) simp
    then have "stokens s' = stokens s @ [new_pk (stokens s), new_pk (stokens s @ [new_pk (stokens s)])]"
      by (simp add: s3)
    with committed(2) CollectionCreate show ?thesis
      by (simp add: CollectionSerializer_create_def stokens_grow_two)
  qed
next
  case (CollectionUpdate c etag rd)
  show ?thesis
  proof (cases rule: atomic_cases [of "CollectionSerializer_update_body c etag rd" s])
    case (failed e)
    with CollectionUpdate show ?thesis by (simp add: CollectionSerializer_update_def stokens_grow_refl)
  next
    case (committed v s')
    from committed(1) obtain main s1 revision where
      "demote_current_revision main s = Inr s1"
      "process_revisions_for_item main rd s1 = Inr (revision, s')"
      by (rule collection_update_body_Inr)
    then have "stokens s' = stokens s @ [new_pk (stokens s)]"
      by (auto dest!: process_stokens demote_stokens)
    with committed(2) CollectionUpdate show ?thesis
      by (simp add: CollectionSerializer_update_def stokens_grow_one)
  qed
next
  case (MemberUpdate m level)
  from member_update_shape [of m level s] show ?thesis
    unfolding MemberUpdate step.simps
    by (elim disjE conjE exE) (simp_all add: stokens_grow_refl stokens_grow_one)
next
  case (Invite u vd)
  have "stokens (snd (CollectionInvitationSerializer_create u vd s)) = stokens s"
    by (cases "objects_get (\<lambda>m. member_collection m = coll_id (ivd_collection vd) \<and> member_user m = u) (members s)")
       (simp_all add: CollectionInvitationSerializer_create_def atomic_def Let_def)
  then show ?thesis unfolding Invite step.simps by (simp add: stokens_grow_iff)
next
  case (InvitationUpdate i level key)
  have "stokens (snd (CollectionInvitationSerializer_update i level key s)) = stokens s"
    by (simp add: CollectionInvitationSerializer_update_def atomic_def Let_def)
  then show ?thesis unfolding InvitationUpdate step.simps by (simp add: stokens_grow_iff)
next
  case (InvitationAccept i key)
  show ?thesis
  proof (cases rule: atomic_cases [of "InvitationAcceptSerializer_create_body i key" s])
    case (failed e)
    with InvitationAccept show ?thesis
      by (simp add: InvitationAcceptSerializer_create_def stokens_grow_refl)
  next
    case (committed v s')
    let ?m = "\<lparr>member_id = new_pk (map member_id (members s)), member_stoken = new_pk (stokens s),
               member_collection = inv_collection i, member_user = inv_user i,
               member_accessLevel = inv_accessLevel i, member_encryptionKey = key\<rparr>"
    let ?s1 = "s\<lparr>stokens := stokens s @ [new_pk (stokens s)]\<rparr>"
    from committed(1) obtain s2 where sv: "CollectionMember_save ?m ?s1 = Inr s2"
      and s': "s' = s2\<lparr>invitations := filter (\<lambda>x. inv_id x \<noteq> inv_id i) (invitations s2)\<rparr>"
      by (cases "CollectionMember_save ?m ?s1")
         (auto simp: InvitationAcceptSerializer_create_body_def Stoken_create_def Let_def)
    have "stokens s2 = stokens s @ [new_pk (stokens s)]"
      by (subst CollectionMember_save_Inr(1) [OF sv]) simp
    then have "stokens s' = stokens s @ [new_pk (stokens s)]" by (simp add: s')
    with committed(2) InvitationAccept show ?thesis
      by (simp add: InvitationAcceptSerializer_create_def stokens_grow_one)
  qed
qed

lemma run_stokens_sorted:
  "sorted_wrt (<) (stokens s) \<Longrightarrow> sorted_wrt (<) (stokens (run requests s))"
  unfolding run_def
proof (induction requests arbitrary: s)
  case Nil
  then show ?case by simp
next
  case (Cons r rs)
  from stokens_grow_sorted [OF Cons(2) step_stokens_grow [of s r]]
  have "sorted_wrt (<) (stokens (step r s))" .
  from Cons(1) [OF this] show ?case by simp
qed

lemma accept_stokens:
  assumes "InvitationAcceptSerializer_create i key s = (Inr member, s')"
  shows "stokens s' = stokens s @ [new_pk (stokens s)] \<and> member_stoken member = new_pk (stokens s)"
proof -
  let ?m = "\<lparr>member_id = new_pk (map member_id (members s)), member_stoken = new_pk (stokens s),
               member_collection = inv_collection i, member_user = inv_user i,
               member_accessLevel = inv_accessLevel i, member_encryptionKey = key\<rparr>"
  let ?s1 = "s\<lparr>stokens := stokens s @ [new_pk (stokens s)]\<rparr>"
  from assms have body: "InvitationAcceptSerializer_create_body i key s = Inr (member, s')"
    by (simp add: InvitationAcceptSerializer_create_def atomic_Inr)
  then obtain s2 where sv: "CollectionMember_save ?m ?s1 = Inr s2"
    and s': "s' = s2\<lparr>invitations := filter (\<lambda>x. inv_id x \<noteq> inv_id i) (invitations s2)\<rparr>"
    and m: "member = ?m"
    by (cases "CollectionMember_save ?m ?s1")
       (auto simp: InvitationAcceptSerializer_create_body_def Stoken_create_def Let_def)
  have "stokens s2 = stokens s @ [new_pk (stokens s)]"
    by (subst CollectionMember_save_Inr(1) [OF sv]) simp
  then show ?thesis by (simp add: s' m)
qed

text \<open>
  C3, for the allocator the spec describes. A new stoken is above every stoken of the
  table. Hence the stoken table of every reachable database is strictly increasing in
  the order of allocation, and no token is allocated twice; every request extends the
  table by tokens above all earlier ones; and the token a mutation allocates is the one
  its revision or membership carries: the new revision's, the accepted membership's, the
  membership's after a change of access level.
\<close>

theorem stoken_allocation_monotonic:
  "(\<forall>t \<in> set (stokens s). t < fst (Stoken_create s))
   \<and> stokens (snd (Stoken_create s)) = stokens s @ [fst (Stoken_create s)]
   \<and> sorted_wrt (<) (stokens (run requests empty_db))
   \<and> distinct (stokens (run requests empty_db))
   \<and> stokens_grow s (step request s)
   \<and> (process_revisions_for_item item rd s = Inr (revision, s1)
        \<longrightarrow> stokens s1 = stokens s @ [rev_stoken revision])
   \<and> (InvitationAcceptSerializer_create invitation encryption_key s = (Inr member, s2)
        \<longrightarrow> stokens s2 = stokens s @ [member_stoken member])
   \<and> (member_accessLevel m \<noteq> level \<and> CollectionMemberSerializer_update m level s = (Inr m', s3)
        \<longrightarrow> stokens s3 = stokens s @ [member_stoken m'] \<and> m' \<in> set (members s3))"
proof (intro conjI)
  show "\<forall>t \<in> set (stokens s). t < fst (Stoken_create s)"
    by (simp add: Stoken_create_def Let_def new_pk_fresh)
  show "stokens (snd (Stoken_create s)) = stokens s @ [fst (Stoken_create s)]"
    by (simp add: Stoken_create_def Let_def)
  have "sorted_wrt (<) (stokens empty_db)" by (simp add: empty_db_def)
  then show sorted: "sorted_wrt (<) (stokens (run requests empty_db))"
    by (rule run_stokens_sorted)
  then show "distinct (stokens (run requests empty_db))"
    by (simp add: strict_sorted_iff)
  show "stokens_grow s (step request s)" by (rule step_stokens_grow)
  show "process_revisions_for_item item rd s = Inr (revision, s1)
        \<longrightarrow> stokens s1 = stokens s @ [rev_stoken revision]"
    by (auto dest: process_stokens)
  show "InvitationAcceptSerializer_create invitation encryption_key s = (Inr member, s2)
        \<longrightarrow> stokens s2 = stokens s @ [member_stoken member]"
    by (auto dest: accept_stokens)
  show "member_accessLevel m \<noteq> level \<and> CollectionMemberSerializer_update m level s = (Inr m', s3)
        \<longrightarrow> stokens s3 = stokens s @ [member_stoken m'] \<and> m' \<in> set (members s3)"
    using member_update_shape [of m level s] by auto
qed

theorem stoken_allocation_monotonic_witness:
  "stokens (run ex_session empty_db) = [1, 2, 3, 4, 5]
   \<and> sorted_wrt (<) (stokens (run ex_session empty_db))
   \<and> stokens_grow ex_s1 (step (ItemUpsert True ex_vd2) ex_s1)
   \<and> process_revisions_for_item ex_item ex_rd ex_db = Inr (ex_rev, ex_db_rev)
   \<and> stokens ex_db_rev = stokens ex_db @ [rev_stoken ex_rev]
   \<and> InvitationAcceptSerializer_create ex_invitation [12] ex_s_invited = (Inr ex_member_bob, ex_s_accepted)
   \<and> stokens ex_s_accepted = stokens ex_s_invited @ [member_stoken ex_member_bob]
   \<and> member_accessLevel ex_member_bob \<noteq> ADMIN
   \<and> CollectionMemberSerializer_update ex_member_bob ADMIN ex_s_accepted
        = (Inr (ex_member_bob\<lparr>member_stoken := 5, member_accessLevel := ADMIN\<rparr>), run ex_session empty_db)
   \<and> stokens (run ex_session empty_db) = stokens ex_s_accepted @ [5]"
proof -
  have v: "stokens (run ex_session empty_db) = [1, 2, 3, 4, 5]" by code_simp
  have p: "process_revisions_for_item ex_item ex_rd ex_db = Inr (ex_rev, ex_db_rev)" by code_simp
  have a: "InvitationAcceptSerializer_create ex_invitation [12] ex_s_invited = (Inr ex_member_bob, ex_s_accepted)"
    by code_simp
  have l: "member_accessLevel ex_member_bob \<noteq> ADMIN" by code_simp
  have u: "CollectionMemberSerializer_update ex_member_bob ADMIN ex_s_accepted
        = (Inr (ex_member_bob\<lparr>member_stoken := 5, member_accessLevel := ADMIN\<rparr>), run ex_session empty_db)"
    by code_simp
  note t = stoken_allocation_monotonic [of ex_s1 ex_session "ItemUpsert True ex_vd2"]
  note t1 = stoken_allocation_monotonic [of ex_db _ _ ex_item ex_rd ex_rev ex_db_rev]
  note t2 = stoken_allocation_monotonic [of ex_s_invited _ _ _ _ _ _ ex_invitation "[12]" ex_member_bob ex_s_accepted]
  note t3 = stoken_allocation_monotonic [of ex_s_accepted _ _ _ _ _ _ _ _ _ _ ex_member_bob ADMIN
      "ex_member_bob\<lparr>member_stoken := 5, member_accessLevel := ADMIN\<rparr>" "run ex_session empty_db"]
  from t have "sorted_wrt (<) (stokens (run ex_session empty_db))"
    and "stokens_grow ex_s1 (step (ItemUpsert True ex_vd2) ex_s1)" by blast+
  moreover from t1 p have "stokens ex_db_rev = stokens ex_db @ [rev_stoken ex_rev]" by blast
  moreover from t2 a have "stokens ex_s_accepted = stokens ex_s_invited @ [member_stoken ex_member_bob]"
    by blast
  moreover from t3 l u have "stokens (run ex_session empty_db)
      = stokens ex_s_accepted @ [member_stoken (ex_member_bob\<lparr>member_stoken := 5, member_accessLevel := ADMIN\<rparr>)]"
    by blast
  ultimately show ?thesis using v p a l u by simp
qed

subsection \<open>Storing a chunk twice\<close>

text \<open>
  C4, where the code departs from it. The loop of \<open>process_revisions_for_item\<close> makes a
  chunk row for every reference that carries content, whether or not a chunk with the
  uid is stored. Uploading chunk \<open>c2\<close> a second time succeeds and leaves two chunks with
  that uid; from then on a reference to \<open>c2\<close> by uid alone, which looks the uid up among
  all chunks and expects one row, fails.
\<close>

theorem chunk_store_duplicates:
  "map chunk_uid (chunks ex_s1) = [''c1'', ''c2'']
   \<and> CollectionItemSerializer_create True ex_vd_again ex_s1 = (Inr ex_item_a, ex_s_again)
   \<and> map chunk_uid (chunks ex_s_again) = [''c1'', ''c2'', ''c2'']
   \<and> map chunk_chunkFile (filter (\<lambda>c. chunk_uid c = ''c2'') (chunks ex_s_again)) = [[3], [3]]
   \<and> CollectionItemSerializer_create True ex_vd_reuse ex_s_again = (Inl MultipleObjectsReturned, ex_s_again)
   \<and> process_chunks ex_item [(''c1'', Some [1, 2]), (''c1'', Some [1, 2])] [] ex_db
       = Inr ([\<lparr>chunk_id = 1, chunk_uid = ''c1'', chunk_item = 1, chunk_chunkFile = [1, 2]\<rparr>,
               \<lparr>chunk_id = 2, chunk_uid = ''c1'', chunk_item = 1, chunk_chunkFile = [1, 2]\<rparr>],
              ex_db\<lparr>chunks :=
                [\<lparr>chunk_id = 1, chunk_uid = ''c1'', chunk_item = 1, chunk_chunkFile = [1, 2]\<rparr>,
                 \<lparr>chunk_id = 2, chunk_uid = ''c1'', chunk_item = 1, chunk_chunkFile = [1, 2]\<rparr>]\<rparr>)"
  by code_simp

subsection \<open>The base64url encoding\<close>

lemma regroup4: "(a::nat) div 4 * 64 + (a mod 4 * 16 + x) = a * 16 + x"
proof -
  have "a * 16 = (a div 4 * 4 + a mod 4) * 16" by simp
  also have "\<dots> = a div 4 * 64 + a mod 4 * 16" by (simp only: add_mult_distrib mult.assoc)
  finally show ?thesis by simp
qed

lemma regroup16: "(b::nat) div 16 * 64 + (b mod 16 * 4 + x) = b * 4 + x"
proof -
  have "b * 4 = (b div 16 * 16 + b mod 16) * 4" by simp
  also have "\<dots> = b div 16 * 64 + b mod 16 * 4" by (simp only: add_mult_distrib mult.assoc)
  finally show ?thesis by simp
qed

lemma sextet_first: "a < 256 \<Longrightarrow> b < 256 \<Longrightarrow>
  ((a div 4) * 64 + (a mod 4 * 16 + b div 16)) div 16 mod 256 = (a::nat)"
proof -
  assume a: "a < 256" and b: "b < 256"
  from b have "b div 16 < 16" by simp
  then have "(a * 16 + b div 16) div 16 = a" by simp
  with a show ?thesis by (simp only: regroup4) simp
qed

lemma sextet_first_rest: "b < 256 \<Longrightarrow>
  ((a div 4) * 64 + (a mod 4 * 16 + b div 16)) mod 16 = (b::nat) div 16"
proof -
  assume b: "b < 256"
  from b have "b div 16 < 16" by simp
  then have "(a * 16 + b div 16) mod 16 = b div 16" by simp
  then show ?thesis by (simp only: regroup4)
qed

lemma sextet_second: "b < 256 \<Longrightarrow> c < 256 \<Longrightarrow>
  ((b div 16) * 64 + (b mod 16 * 4 + c div 64)) div 4 mod 256 = (b::nat)"
proof -
  assume b: "b < 256" and c: "c < 256"
  from c have "c div 64 < 4" by simp
  then have "(b * 4 + c div 64) div 4 = b" by simp
  with b show ?thesis by (simp only: regroup16) simp
qed

lemma sextet_second_rest: "c < 256 \<Longrightarrow>
  ((b div 16) * 64 + (b mod 16 * 4 + c div 64)) mod 4 = (c::nat) div 64"
proof -
  assume c: "c < 256"
  from c have "c div 64 < 4" by simp
  then have "(b * 4 + c div 64) mod 4 = c div 64" by simp
  then show ?thesis by (simp only: regroup16)
qed

lemma sextet_third: "c < 256 \<Longrightarrow> ((c div 64) * 64 + c mod 64) mod 256 = (c::nat)"
  by simp

lemma table_roundtrip_all:
  "list_all (\<lambda>n. urlsafe_encode_translation (table_b2a_base64 n) \<noteq> CHR ''=''
       \<and> (of_char (urlsafe_encode_translation (table_b2a_base64 n)) :: nat) \<le> 127
       \<and> urlsafe_decode_translation (urlsafe_encode_translation (table_b2a_base64 n)) \<noteq> CHR ''=''
       \<and> table_a2b_base64 (urlsafe_decode_translation (urlsafe_encode_translation (table_b2a_base64 n))) = Some n)
     [0..<64]"
  by code_simp

lemma table_roundtrip:
  assumes "n < 64"
  shows "urlsafe_encode_translation (table_b2a_base64 n) \<noteq> CHR ''=''"
    and "(of_char (urlsafe_encode_translation (table_b2a_base64 n)) :: nat) \<le> 127"
    and "urlsafe_decode_translation (urlsafe_encode_translation (table_b2a_base64 n)) \<noteq> CHR ''=''"
    and "table_a2b_base64 (urlsafe_decode_translation (urlsafe_encode_translation (table_b2a_base64 n))) = Some n"
proof -
  from assms have "n \<in> set [0..<64]" by simp
  with table_roundtrip_all show
    "urlsafe_encode_translation (table_b2a_base64 n) \<noteq> CHR ''=''"
    "(of_char (urlsafe_encode_translation (table_b2a_base64 n)) :: nat) \<le> 127"
    "urlsafe_decode_translation (urlsafe_encode_translation (table_b2a_base64 n)) \<noteq> CHR ''=''"
    "table_a2b_base64 (urlsafe_decode_translation (urlsafe_encode_translation (table_b2a_base64 n))) = Some n"
    unfolding list_all_iff by blast+
qed

lemma sextet_first_last: "a < 256 \<Longrightarrow> ((a div 4) * 64 + a mod 4 * 16) div 16 mod 256 = (a::nat)"
  using sextet_first [of a 0] by simp

lemma sextet_second_last: "b < 256 \<Longrightarrow> ((b div 16) * 64 + b mod 16 * 4) div 4 mod 256 = (b::nat)"
  using sextet_second [of b 0] by simp

lemma unat_byte: "unat (a :: 8 word) < 256"
  using unsigned_less [of a, where 'a = nat] by simp

lemma sextet_bounds:
  "unat (a :: 8 word) div 4 < 64"
  "unat (a :: 8 word) mod 4 * 16 + unat (b :: 8 word) div 16 < 64"
  "unat (b :: 8 word) mod 16 * 4 + unat (c :: 8 word) div 64 < 64"
  "unat (c :: 8 word) mod 64 < 64"
  "unat (a :: 8 word) mod 4 * 16 < 64"
  "unat (b :: 8 word) mod 16 * 4 < 64"
proof -
  have a: "unat a < 256" and b: "unat b < 256" and c: "unat c < 256"
    by (rule unat_byte)+
  from a show "unat a div 4 < 64" by simp
  have "unat a mod 4 < 4" by simp
  then have a4: "unat a mod 4 * 16 \<le> 48" by simp
  from b have "unat b div 16 < 16" by simp
  with a4 show "unat a mod 4 * 16 + unat b div 16 < 64" by simp
  have "unat b mod 16 < 16" by simp
  then have b16: "unat b mod 16 * 4 \<le> 60" by simp
  from c have "unat c div 64 < 4" by simp
  with b16 show "unat b mod 16 * 4 + unat c div 64 < 64" by simp
  show "unat c mod 64 < 64" by simp
  from a4 show "unat a mod 4 * 16 < 64" by simp
  from b16 show "unat b mod 16 * 4 < 64" by simp
qed

lemma a2b_group:
  assumes "c1 \<noteq> CHR ''=''" "table_a2b_base64 c1 = Some s1"
    and "c2 \<noteq> CHR ''=''" "table_a2b_base64 c2 = Some s2"
    and "c3 \<noteq> CHR ''=''" "table_a2b_base64 c3 = Some s3"
    and "c4 \<noteq> CHR ''=''" "table_a2b_base64 c4 = Some s4"
  shows "a2b_base64 0 0 0 (c1 # c2 # c3 # c4 # rest) =
     (case a2b_base64 0 0 0 rest of
        Inl e \<Rightarrow> Inl e
      | Inr out \<Rightarrow>
          Inr (of_nat ((s1 * 64 + s2) div 16 mod 256)
             # of_nat (((s1 * 64 + s2) mod 16 * 64 + s3) div 4 mod 256)
             # of_nat ((((s1 * 64 + s2) mod 16 * 64 + s3) mod 4 * 64 + s4) mod 256) # out))"
  using assms by (simp add: Let_def split: sum.splits)

lemma a2b_pad1:
  assumes "c1 \<noteq> CHR ''=''" "table_a2b_base64 c1 = Some s1"
    and "c2 \<noteq> CHR ''=''" "table_a2b_base64 c2 = Some s2"
    and "c3 \<noteq> CHR ''=''" "table_a2b_base64 c3 = Some s3"
  shows "a2b_base64 0 0 0 [c1, c2, c3, CHR ''=''] =
     Inr [of_nat ((s1 * 64 + s2) div 16 mod 256),
          of_nat (((s1 * 64 + s2) mod 16 * 64 + s3) div 4 mod 256)]"
  using assms by (simp add: Let_def)

lemma a2b_pad2:
  assumes "c1 \<noteq> CHR ''=''" "table_a2b_base64 c1 = Some s1"
    and "c2 \<noteq> CHR ''=''" "table_a2b_base64 c2 = Some s2"
  shows "a2b_base64 0 0 0 [c1, c2, CHR ''='', CHR ''=''] =
     Inr [of_nat ((s1 * 64 + s2) div 16 mod 256)]"
  using assms by (simp add: Let_def)

lemma a2b_of_encoded:
  "a2b_base64 0 0 0 (map urlsafe_decode_translation (urlsafe_b64encode v)) = Inr v"
proof (induction v rule: b2a_base64.induct)
  case (1 a b c rest)
  note sb = sextet_bounds
  have a: "unat a < 256" and b: "unat b < 256" and c: "unat c < 256"
    by (rule unat_byte)+
  have "a2b_base64 0 0 0 (map urlsafe_decode_translation (urlsafe_b64encode (a # b # c # rest)))
      = a2b_base64 0 0 0 (decoded_char (unat a div 4) # decoded_char (unat a mod 4 * 16 + unat b div 16)
          # decoded_char (unat b mod 16 * 4 + unat c div 64) # decoded_char (unat c mod 64)
          # map urlsafe_decode_translation (urlsafe_b64encode rest))"
    by (simp add: urlsafe_b64encode_def)
  also have "\<dots> = Inr (a # b # c # rest)"
    by (subst a2b_group [OF table_roundtrip(3,4) [OF sb(1)] table_roundtrip(3,4) [OF sb(2)]
             table_roundtrip(3,4) [OF sb(3)] table_roundtrip(3,4) [OF sb(4)]])
       (simp add: 1 sextet_first [OF a b] sextet_first_rest [OF b] sextet_second [OF b c] sextet_second_rest [OF c] sextet_third [OF c] mod_less [OF a] mod_less [OF b] mod_less [OF c])
  finally show ?case .
next
  case (2 a b)
  note sb = sextet_bounds
  have a: "unat a < 256" and b: "unat b < 256"
    by (rule unat_byte)+
  have "a2b_base64 0 0 0 (map urlsafe_decode_translation (urlsafe_b64encode [a, b]))
      = a2b_base64 0 0 0 [decoded_char (unat a div 4), decoded_char (unat a mod 4 * 16 + unat b div 16),
          decoded_char (unat b mod 16 * 4), CHR ''='']"
    by (simp add: urlsafe_b64encode_def urlsafe_encode_translation_def urlsafe_decode_translation_def)
  also have "\<dots> = Inr [a, b]"
    by (subst a2b_pad1 [OF table_roundtrip(3,4) [OF sb(1)] table_roundtrip(3,4) [OF sb(2)]
             table_roundtrip(3,4) [OF sb(6)]])
       (simp add: sextet_first [OF a b] sextet_first_rest [OF b] sextet_second_last [OF b] mod_less [OF a] mod_less [OF b])
  finally show ?case .
next
  case (3 a)
  note sb = sextet_bounds
  have a: "unat a < 256" by (rule unat_byte)
  have "a2b_base64 0 0 0 (map urlsafe_decode_translation (urlsafe_b64encode [a]))
      = a2b_base64 0 0 0 [decoded_char (unat a div 4), decoded_char (unat a mod 4 * 16), CHR ''='', CHR ''='']"
    by (simp add: urlsafe_b64encode_def urlsafe_encode_translation_def urlsafe_decode_translation_def)
  also have "\<dots> = Inr [a]"
    by (subst a2b_pad2 [OF table_roundtrip(3,4) [OF sb(1)] table_roundtrip(3,4) [OF sb(5)]])
       (simp add: sextet_first_last [OF a] mod_less [OF a])
  finally show ?case .
next
  case 4
  show ?case by (simp add: urlsafe_b64encode_def)
qed

lemma encoded_shape:
  "\<exists>body k. urlsafe_b64encode v = body @ replicate k CHR ''=''
      \<and> CHR ''='' \<notin> set body \<and> (\<forall>c \<in> set body. (of_char c :: nat) \<le> 127)
      \<and> (4 - length body mod 4) mod 4 = k"
proof (induction v rule: b2a_base64.induct)
  case (1 a b c rest)
  then obtain body k where
    h: "urlsafe_b64encode rest = body @ replicate k CHR ''=''" "CHR ''='' \<notin> set body"
       "\<forall>c \<in> set body. (of_char c :: nat) \<le> 127" "(4 - length body mod 4) mod 4 = k"
    by blast
  let ?g = "[urlsafe_encode_translation (table_b2a_base64 (unat a div 4)),
      urlsafe_encode_translation (table_b2a_base64 (unat a mod 4 * 16 + unat b div 16)),
      urlsafe_encode_translation (table_b2a_base64 (unat b mod 16 * 4 + unat c div 64)),
      urlsafe_encode_translation (table_b2a_base64 (unat c mod 64))]"
  have "urlsafe_b64encode (a # b # c # rest) = (?g @ body) @ replicate k CHR ''=''"
    using h(1) by (simp add: urlsafe_b64encode_def)
  moreover have "CHR ''='' \<notin> set (?g @ body)"
    using h(2) table_roundtrip(1) [OF sextet_bounds(1), of a]
      table_roundtrip(1) [OF sextet_bounds(2), of a b]
      table_roundtrip(1) [OF sextet_bounds(3), of b c]
      table_roundtrip(1) [OF sextet_bounds(4), of c]
    by auto
  moreover have "\<forall>c \<in> set (?g @ body). (of_char c :: nat) \<le> 127"
    using h(3) table_roundtrip(2) [OF sextet_bounds(1), of a]
      table_roundtrip(2) [OF sextet_bounds(2), of a b]
      table_roundtrip(2) [OF sextet_bounds(3), of b c]
      table_roundtrip(2) [OF sextet_bounds(4), of c]
    by auto
  moreover have "(4 - length (?g @ body) mod 4) mod 4 = k"
    using h(4) by simp
  ultimately show ?case by blast
next
  case (2 a b)
  let ?g = "[urlsafe_encode_translation (table_b2a_base64 (unat a div 4)),
      urlsafe_encode_translation (table_b2a_base64 (unat a mod 4 * 16 + unat b div 16)),
      urlsafe_encode_translation (table_b2a_base64 (unat b mod 16 * 4))]"
  have "urlsafe_b64encode [a, b] = ?g @ replicate 1 CHR ''=''"
    by (simp add: urlsafe_b64encode_def urlsafe_encode_translation_def)
  moreover have "CHR ''='' \<notin> set ?g"
    using table_roundtrip(1) [OF sextet_bounds(1), of a]
      table_roundtrip(1) [OF sextet_bounds(2), of a b]
      table_roundtrip(1) [OF sextet_bounds(6), of b]
    by auto
  moreover have "\<forall>c \<in> set ?g. (of_char c :: nat) \<le> 127"
    using table_roundtrip(2) [OF sextet_bounds(1), of a]
      table_roundtrip(2) [OF sextet_bounds(2), of a b]
      table_roundtrip(2) [OF sextet_bounds(6), of b]
    by auto
  moreover have "(4 - length ?g mod 4) mod 4 = 1" by simp
  ultimately show ?case by blast
next
  case (3 a)
  let ?g = "[urlsafe_encode_translation (table_b2a_base64 (unat a div 4)),
      urlsafe_encode_translation (table_b2a_base64 (unat a mod 4 * 16))]"
  have "urlsafe_b64encode [a] = ?g @ replicate 2 CHR ''=''"
    by (simp add: urlsafe_b64encode_def urlsafe_encode_translation_def numeral_2_eq_2)
  moreover have "CHR ''='' \<notin> set ?g"
    using table_roundtrip(1) [OF sextet_bounds(1), of a]
      table_roundtrip(1) [OF sextet_bounds(5), of a]
    by auto
  moreover have "\<forall>c \<in> set ?g. (of_char c :: nat) \<le> 127"
    using table_roundtrip(2) [OF sextet_bounds(1), of a]
      table_roundtrip(2) [OF sextet_bounds(5), of a]
    by auto
  moreover have "(4 - length ?g mod 4) mod 4 = 2" by simp
  ultimately show ?case by blast
next
  case 4
  show ?case by (simp add: urlsafe_b64encode_def)
qed

lemma dropWhile_absent: "c \<notin> set ys \<Longrightarrow> dropWhile (\<lambda>x. x = c) ys = ys"
  by (cases ys) auto

lemma py_strip_padding:
  assumes "c \<notin> set body"
  shows "py_strip c (body @ replicate k c) = body"
proof (cases body)
  case Nil
  have "dropWhile (\<lambda>x. x = c) (replicate k c) = []" by (induction k) auto
  then show ?thesis by (simp add: py_strip_def Nil)
next
  case (Cons x xs)
  with assms have "x \<noteq> c" by auto
  then have "dropWhile (\<lambda>x. x = c) (body @ replicate k c) = body @ replicate k c"
    by (simp add: Cons)
  moreover have "dropWhile (\<lambda>x. x = c) (replicate k c @ rev body) = dropWhile (\<lambda>x. x = c) (rev body)"
    by (induction k) simp_all
  moreover have "dropWhile (\<lambda>x. x = c) (rev body) = rev body"
    by (rule dropWhile_absent) (simp add: assms)
  ultimately show ?thesis by (simp add: py_strip_def)
qed

text \<open>
  C9. Decoding what \<open>b64encode\<close> made of a byte string gives the byte string back, and
  the encoding has no \<open>=\<close> in it.
\<close>

theorem b64_roundtrip:
  "b64decode (b64encode v) = Inr v \<and> CHR ''='' \<notin> set (b64encode v)"
proof -
  from encoded_shape [of v] obtain body k where
    h: "urlsafe_b64encode v = body @ replicate k CHR ''=''" "CHR ''='' \<notin> set body"
       "\<forall>c \<in> set body. (of_char c :: nat) \<le> 127" "(4 - length body mod 4) mod 4 = k"
    by blast
  have enc: "b64encode v = body"
    by (simp add: b64encode_def h(1) py_strip_padding [OF h(2)])
  have ascii: "\<not> (\<exists>c \<in> set (urlsafe_b64encode v). (of_char c :: nat) > 127)"
    using h(3) by (auto simp: h(1))
  have "b64decode (b64encode v) = urlsafe_b64decode (urlsafe_b64encode v)"
    by (simp add: b64decode_def enc h(4) h(1))
  also have "\<dots> = a2b_base64 0 0 0 (map urlsafe_decode_translation (urlsafe_b64encode v))"
    using ascii by (simp add: urlsafe_b64decode_def)
  also have "\<dots> = Inr v" by (rule a2b_of_encoded)
  finally show ?thesis using h(2) by (simp add: enc)
qed

theorem b64_roundtrip_witness:
  "b64encode [1, 2, 3, 255, 254] = ''AQID__4''
   \<and> b64decode ''AQID__4'' = Inr [1, 2, 3, 255, 254]
   \<and> CHR ''='' \<notin> set (b64encode [1, 2, 3, 255, 254])"
proof -
  have e: "b64encode [1, 2, 3, 255, 254] = ''AQID__4''" by code_simp
  from b64_roundtrip [of "[1, 2, 3, 255, 254]"] show ?thesis by (simp add: e)
qed

end
